theory Spec2Isabelle
  imports Complex_Main
begin

section \<open>Environment: the random generator and the console\<close>

text \<open>
  The script draws from Python's module-level generator and prints to standard output.
  Both are made explicit. The generator is an arbitrary sequence of raw draws
  (\<open>entropy\<close>) read at a position (\<open>cursor\<close>); nothing is assumed about the sequence,
  so every theorem below holds for every behaviour of the generator. The console is the
  list of lines printed so far.

  Python floats are modelled as real numbers with exact arithmetic: rounding of IEEE
  doubles is not part of the model. The exceptions that float operations raise
  (division by zero, overflow of \<open>**\<close>) are branches of the model.
\<close>

record world =
  entropy :: "nat \<Rightarrow> nat"
  cursor :: nat
  stdout :: "string list"

datatype error =
    InvalidDateFormat string
  | ValueError
  | ZeroDivisionError
  | OverflowError
  | ComplexResult

text \<open>\<open>random.randint(a, b)\<close> is \<open>a + randbelow(b - a + 1)\<close>; one raw draw per call.\<close>

definition randbelow :: "nat \<Rightarrow> world \<Rightarrow> nat \<times> world" where
  "randbelow n w = (entropy w (cursor w) mod n, w\<lparr>cursor := cursor w + 1\<rparr>)"

definition randint :: "int \<Rightarrow> int \<Rightarrow> world \<Rightarrow> int \<times> world" where
  "randint a b w = (let (r, w') = randbelow (nat (b - a + 1)) w in (a + int r, w'))"

section \<open>Stock\<close>

record Stock =
  name :: string

definition generate_random_price :: "Stock \<Rightarrow> world \<Rightarrow> real \<times> world" where
  "generate_random_price self w =
     (let (i, w1) = randint 1 1000 w;
          (c, w2) = randint 1 100 w1
      in (real_of_int i + real_of_int c / 100, w2))"

definition get_price :: "Stock \<Rightarrow> world \<Rightarrow> real \<times> world" where
  "get_price self w = generate_random_price self w"

section \<open>Calendar arithmetic of \<open>datetime\<close>\<close>

text \<open>
  A naive \<open>datetime\<close>. The functions below are the ones of the standard library's
  \<open>datetime\<close> module that the script reaches: the field check of the constructor, the
  proleptic Gregorian ordinal, and the \<open>days\<close> attribute of the difference of two values.
\<close>

record datetime =
  year :: int
  month :: int
  day :: int
  hour :: int
  minute :: int
  second :: int
  microsecond :: int

definition is_leap :: "int \<Rightarrow> bool" where
  "is_leap y \<longleftrightarrow> y mod 4 = 0 \<and> (y mod 100 \<noteq> 0 \<or> y mod 400 = 0)"

definition DAYS_IN_MONTH :: "int list" where
  "DAYS_IN_MONTH = [-1, 31, 28, 31, 30, 31, 30, 31, 31, 30, 31, 30, 31]"

definition DAYS_BEFORE_MONTH :: "int list" where
  "DAYS_BEFORE_MONTH = [-1, 0, 31, 59, 90, 120, 151, 181, 212, 243, 273, 304, 334]"

definition days_in_month :: "int \<Rightarrow> int \<Rightarrow> int" where
  "days_in_month y m = (if m = 2 \<and> is_leap y then 29 else DAYS_IN_MONTH ! nat m)"

definition days_before_year :: "int \<Rightarrow> int" where
  "days_before_year yr = (let y = yr - 1 in y * 365 + y div 4 - y div 100 + y div 400)"

definition days_before_month :: "int \<Rightarrow> int \<Rightarrow> int" where
  "days_before_month y m = DAYS_BEFORE_MONTH ! nat m + (if m > 2 \<and> is_leap y then 1 else 0)"

definition ymd2ord :: "int \<Rightarrow> int \<Rightarrow> int \<Rightarrow> int" where
  "ymd2ord y m d = days_before_year y + days_before_month y m + d"

definition toordinal :: "datetime \<Rightarrow> int" where
  "toordinal dt = ymd2ord (year dt) (month dt) (day dt)"

text \<open>The constructor of a date raises \<open>ValueError\<close> on a field out of range.\<close>

definition check_date_fields :: "int \<Rightarrow> int \<Rightarrow> int \<Rightarrow> error + unit" where
  "check_date_fields y m d =
     (if \<not> (1 \<le> y \<and> y \<le> 9999) then Inl ValueError
      else if \<not> (1 \<le> m \<and> m \<le> 12) then Inl ValueError
      else if \<not> (1 \<le> d \<and> d \<le> days_in_month y m) then Inl ValueError
      else Inr ())"

text \<open>
  \<open>(a - b).days\<close>: the difference is a \<open>timedelta\<close> normalised so that its seconds and
  microseconds are non-negative, hence \<open>days\<close> is the floor of the difference in days.
\<close>

definition seconds_of_day :: "datetime \<Rightarrow> int" where
  "seconds_of_day dt = second dt + minute dt * 60 + hour dt * 3600"

definition sub_days :: "datetime \<Rightarrow> datetime \<Rightarrow> int" where
  "sub_days a b =
     (toordinal a - toordinal b) +
     ((seconds_of_day a - seconds_of_day b) * 1000000 + (microsecond a - microsecond b))
       div 86400000000"

section \<open>\<open>datetime.strptime\<close> with the format \<open>%Y-%m-%d\<close>\<close>

text \<open>
  The library turns the format into the regular expression
  \<^verbatim>\<open>(?P<Y>\d\d\d\d)-(?P<m>1[0-2]|0[1-9]|[1-9])-(?P<d>3[0-1]|[1-2]\d|0[1-9]|[1-9]| [1-9])\<close>,
  matches it at the start of the string, and raises \<open>ValueError\<close> when there is no
  match, when text remains after the match, or when the captured fields are not a date.
  A backtracking matcher is modelled by the list of its successes, in the order in
  which the alternatives are tried; the match found is the head of the list.
  A string of this theory is a Python string whose characters all lie below U+0100
  (one 8-bit character per code point). The library compiles the expression with the
  Unicode flag, so \<^verbatim>\<open>\d\<close> matches every character of the category of decimal
  digits, and \<open>int\<close> reads every such character; below U+0100 these are exactly the
  ten ASCII digits, which is what \<open>is_digit\<close> tests. Strings with characters from
  U+0100 on are not values of this theory.
\<close>

definition is_digit :: "char \<Rightarrow> bool" where
  "is_digit c \<longleftrightarrow> c \<in> set ''0123456789''"

definition digit_1_9 :: "char \<Rightarrow> bool" where
  "digit_1_9 c \<longleftrightarrow> c \<in> set ''123456789''"

definition digit_value :: "char \<Rightarrow> int" where
  "digit_value c = int (of_char c) - 48"

text \<open>\<open>int(text)\<close> on a captured group: leading blanks are skipped.\<close>

definition decimal :: "string \<Rightarrow> int" where
  "decimal s = foldl (\<lambda>a c. 10 * a + digit_value c) 0 s"

definition py_int :: "string \<Rightarrow> int" where
  "py_int s = decimal (dropWhile (\<lambda>c. c = CHR '' '') s)"

fun alt1 :: "(char \<Rightarrow> bool) \<Rightarrow> string \<Rightarrow> (string \<times> string) list" where
  "alt1 P (a # r) = (if P a then [([a], r)] else [])"
| "alt1 P [] = []"

fun alt2 :: "(char \<Rightarrow> bool) \<Rightarrow> (char \<Rightarrow> bool) \<Rightarrow> string \<Rightarrow> (string \<times> string) list" where
  "alt2 P Q (a # b # r) = (if P a \<and> Q b then [([a, b], r)] else [])"
| "alt2 P Q _ = []"

fun re_Y :: "string \<Rightarrow> (string \<times> string) list" where
  "re_Y (a # b # c # d # r) =
     (if is_digit a \<and> is_digit b \<and> is_digit c \<and> is_digit d then [([a, b, c, d], r)] else [])"
| "re_Y _ = []"

definition re_m :: "string \<Rightarrow> (string \<times> string) list" where
  "re_m s =
     alt2 (\<lambda>c. c = CHR ''1'') (\<lambda>c. c \<in> set ''012'') s @
     alt2 (\<lambda>c. c = CHR ''0'') digit_1_9 s @
     alt1 digit_1_9 s"

definition re_d :: "string \<Rightarrow> (string \<times> string) list" where
  "re_d s =
     alt2 (\<lambda>c. c = CHR ''3'') (\<lambda>c. c \<in> set ''01'') s @
     alt2 (\<lambda>c. c \<in> set ''12'') is_digit s @
     alt2 (\<lambda>c. c = CHR ''0'') digit_1_9 s @
     alt1 digit_1_9 s @
     alt2 (\<lambda>c. c = CHR '' '') digit_1_9 s"

definition re_dash :: "string \<Rightarrow> (string \<times> string) list" where
  "re_dash s = alt1 (\<lambda>c. c = CHR ''-'') s"

text \<open>The matches of a group followed by the literal dash.\<close>

definition then_dash :: "(string \<Rightarrow> (string \<times> string) list) \<Rightarrow> string \<Rightarrow> (string \<times> string) list" where
  "then_dash grp s = concat (map (\<lambda>(x, r). map (\<lambda>(_, r'). (x, r')) (re_dash r)) (grp s))"

definition regex_match :: "string \<Rightarrow> (string \<times> string \<times> string \<times> string) list" where
  "regex_match s =
     concat (map (\<lambda>(y, r1).
       concat (map (\<lambda>(m, r2).
         map (\<lambda>(d, r3). (y, m, d, r3)) (re_d r2))
       (then_dash re_m r1)))
     (then_dash re_Y s))"

definition strptime :: "string \<Rightarrow> error + datetime" where
  "strptime data_string =
     (case regex_match data_string of
        [] \<Rightarrow> Inl ValueError
      | (y, m, d, rest) # _ \<Rightarrow>
          if rest \<noteq> [] then Inl ValueError
          else
            (case check_date_fields (py_int y) (py_int m) (py_int d) of
               Inl e \<Rightarrow> Inl e
             | Inr _ \<Rightarrow>
                 Inr \<lparr>year = py_int y, month = py_int m, day = py_int d,
                      hour = 0, minute = 0, second = 0, microsecond = 0\<rparr>))"

section \<open>Portfolio\<close>

record Portfolio =
  stocks :: "Stock list"

definition MESSAGE_ERROR :: string where
  "MESSAGE_ERROR = ''Invalid date format. Please use the format yyyy-mm-dd.''"

text \<open>The exception class: its constructor builds the message from the offending text.\<close>

definition InvalidDateFormat_init :: "string \<Rightarrow> error" where
  "InvalidDateFormat_init date = InvalidDateFormat (date @ '' is not a valid date. '' @ MESSAGE_ERROR)"

definition validate_date_format :: "Portfolio \<Rightarrow> string \<Rightarrow> error + datetime" where
  "validate_date_format self date_str =
     (case strptime date_str of
        Inl ValueError \<Rightarrow> Inl (InvalidDateFormat_init date_str)
      | Inl e \<Rightarrow> Inl e
      | Inr dt \<Rightarrow> Inr dt)"

definition calculate_days_difference :: "Portfolio \<Rightarrow> datetime \<Rightarrow> datetime \<Rightarrow> int" where
  "calculate_days_difference self start_date end_date = \<bar>sub_days end_date start_date\<bar>"

definition calculate_years_difference :: "Portfolio \<Rightarrow> datetime \<Rightarrow> datetime \<Rightarrow> real" where
  "calculate_years_difference self start_date end_date =
     real_of_int (calculate_days_difference self start_date end_date) / 365"

text \<open>
  Float division raises \<open>ZeroDivisionError\<close> on a zero divisor. \<open>x ** y\<close> on floats
  raises \<open>ZeroDivisionError\<close> for \<open>0.0\<close> to a negative power and \<open>OverflowError\<close> when
  the result is beyond the largest finite double; a negative base with a fractional
  exponent gives a complex number in Python, which this model has no values for and
  marks as \<open>ComplexResult\<close> (the reporting operations never reach that case, see
  \<open>annualized_return_not_complex\<close>).
\<close>

definition truediv :: "real \<Rightarrow> real \<Rightarrow> error + real" where
  "truediv a b = (if b = 0 then Inl ZeroDivisionError else Inr (a / b))"

definition DBL_MAX :: real where
  "DBL_MAX = (2 ^ 53 - 1) * 2 ^ 971"

definition float_pow :: "real \<Rightarrow> real \<Rightarrow> error + real" where
  "float_pow x y =
     (if y = 0 then Inr 1
      else if x = 0 then (if y < 0 then Inl ZeroDivisionError else Inr 0)
      else if x < 0 \<and> real_of_int \<lfloor>y\<rfloor> \<noteq> y then Inl ComplexResult
      else
        let r = (if x < 0 \<and> odd \<lfloor>y\<rfloor> then - (\<bar>x\<bar> powr y) else \<bar>x\<bar> powr y)
        in if \<bar>r\<bar> > DBL_MAX then Inl OverflowError else Inr r)"

definition calculate_annualized_return :: "Portfolio \<Rightarrow> real \<Rightarrow> real \<Rightarrow> real \<Rightarrow> error + real" where
  "calculate_annualized_return self initial_price final_price years =
     (case truediv final_price initial_price of
        Inl e \<Rightarrow> Inl e
      | Inr q \<Rightarrow>
          (case truediv 1 years of
             Inl e \<Rightarrow> Inl e
           | Inr e \<Rightarrow>
               (case float_pow q e of
                  Inl err \<Rightarrow> Inl err
                | Inr r \<Rightarrow> Inr ((r - 1) * 100))))"

definition calculate_profit_percentage :: "Portfolio \<Rightarrow> real \<Rightarrow> real \<Rightarrow> error + real" where
  "calculate_profit_percentage self initial_price final_price =
     (case truediv (final_price - initial_price) initial_price of
        Inl e \<Rightarrow> Inl e
      | Inr q \<Rightarrow> Inr (q * 100))"

text \<open>\<open>sum(stock.get_price() for stock in self.stocks)\<close>: a left fold from 0.\<close>

fun sum_prices :: "Stock list \<Rightarrow> real \<Rightarrow> world \<Rightarrow> real \<times> world" where
  "sum_prices [] acc w = (acc, w)"
| "sum_prices (stock # rest) acc w =
     (let (p, w') = get_price stock w in sum_prices rest (acc + p) w')"

definition get_portfolio_value :: "Portfolio \<Rightarrow> world \<Rightarrow> real \<times> world" where
  "get_portfolio_value self w = sum_prices (stocks self) 0 w"

subsection \<open>Construction\<close>

definition CUSTOM_RANDOM_STOCKS :: "string list" where
  "CUSTOM_RANDOM_STOCKS =
     [''MSFT'', ''AAPL'', ''AMZN'', ''GOOGL'', ''TSLA'', ''META'', ''NVDA'', ''FINTUAL'']"

text \<open>
  \<open>random.sample(population, k)\<close> for a population of at most 21 elements (the branch
  the library takes for the catalog): a copy of the population is the pool; step \<open>i\<close>
  draws an index below \<open>n - i\<close>, takes that element, and moves the last live element of
  the pool into its place.
\<close>

fun sample_loop :: "'a list \<Rightarrow> nat \<Rightarrow> nat \<Rightarrow> world \<Rightarrow> 'a list \<times> world" where
  "sample_loop pool n 0 w = ([], w)"
| "sample_loop pool n (Suc k) w =
     (let (j, w1) = randbelow n w;
          x = pool ! j;
          (rest, w2) = sample_loop (pool[j := pool ! (n - 1)]) (n - 1) k w1
      in (x # rest, w2))"

definition sample :: "'a list \<Rightarrow> int \<Rightarrow> world \<Rightarrow> (error + 'a list) \<times> world" where
  "sample population k w =
     (if \<not> (0 \<le> k \<and> k \<le> int (length population)) then (Inl ValueError, w)
      else let (result, w') = sample_loop population (length population) (nat k) w
           in (Inr result, w'))"

definition generate_random_stocks :: "world \<Rightarrow> (error + Stock list) \<times> world" where
  "generate_random_stocks w =
     (let (stock_count, w1) = randint 1 (int (length CUSTOM_RANDOM_STOCKS)) w in
      case sample CUSTOM_RANDOM_STOCKS stock_count w1 of
        (Inl e, w2) \<Rightarrow> (Inl e, w2)
      | (Inr names, w2) \<Rightarrow> (Inr (map (\<lambda>n. \<lparr>name = n\<rparr>) names), w2))"

definition Portfolio_init :: "world \<Rightarrow> (error + Portfolio) \<times> world" where
  "Portfolio_init w =
     (case generate_random_stocks w of
        (Inl e, w') \<Rightarrow> (Inl e, w')
      | (Inr ss, w') \<Rightarrow> (Inr \<lparr>stocks = ss\<rparr>, w'))"

subsection \<open>Printing\<close>

text \<open>
  \<open>f"{x:.2f}"\<close>: the sign, then the magnitude rounded to two decimals (ties to even),
  written with all its integer digits, a point and two decimals.
\<close>

definition digit_char :: "nat \<Rightarrow> char" where
  "digit_char n = ''0123456789'' ! n"

function show_nat :: "nat \<Rightarrow> string" where
  "show_nat n = (if n < 10 then [digit_char n] else show_nat (n div 10) @ [digit_char (n mod 10)])"
  by pat_completeness auto
termination
  by (relation "measure (\<lambda>n. n)") auto

declare show_nat.simps [simp del]

definition round_half_even :: "real \<Rightarrow> int" where
  "round_half_even x =
     (let f = \<lfloor>x\<rfloor>; r = x - real_of_int f
      in if r < 1 / 2 then f
         else if r > 1 / 2 then f + 1
         else if even f then f else f + 1)"

definition format_2f :: "real \<Rightarrow> string" where
  "format_2f x =
     (let n = nat (round_half_even (\<bar>x\<bar> * 100))
      in (if x < 0 then ''-'' else []) @ show_nat (n div 100) @ ''.'' @
         [digit_char (n mod 100 div 10), digit_char (n mod 10)])"

definition print :: "string \<Rightarrow> world \<Rightarrow> world" where
  "print line w = w\<lparr>stdout := stdout w @ [line]\<rparr>"

subsection \<open>Reporting operations\<close>

text \<open>
  Each operation returns its outcome (\<open>Inr ()\<close> for Python's \<open>None\<close>, \<open>Inl\<close> for a
  raised exception), the portfolio object after the call, and the environment after the
  call.
\<close>

definition calculate_profit_between ::
  "Portfolio \<Rightarrow> string \<Rightarrow> string \<Rightarrow> world \<Rightarrow> (error + unit) \<times> Portfolio \<times> world" where
  "calculate_profit_between self start_date_str end_date_str w =
     (case validate_date_format self start_date_str of
        Inl e \<Rightarrow> (Inl e, self, w)
      | Inr _ \<Rightarrow>
     (case validate_date_format self end_date_str of
        Inl e \<Rightarrow> (Inl e, self, w)
      | Inr _ \<Rightarrow>
     (let (initial_price, w1) = get_portfolio_value self w;
          (final_price, w2) = get_portfolio_value self w1
      in case calculate_profit_percentage self initial_price final_price of
           Inl e \<Rightarrow> (Inl e, self, w2)
         | Inr total_profit \<Rightarrow>
             (Inr (), self,
              print (''Profit between '' @ start_date_str @ '' and '' @ end_date_str @ '': '' @
                     format_2f total_profit @ ''%'') w2))))"

definition calculate_profit_annualized ::
  "Portfolio \<Rightarrow> string \<Rightarrow> string \<Rightarrow> world \<Rightarrow> (error + unit) \<times> Portfolio \<times> world" where
  "calculate_profit_annualized self start_date_str end_date_str w =
     (case validate_date_format self start_date_str of
        Inl e \<Rightarrow> (Inl e, self, w)
      | Inr start_date \<Rightarrow>
     (case validate_date_format self end_date_str of
        Inl e \<Rightarrow> (Inl e, self, w)
      | Inr end_date \<Rightarrow>
     (let (initial_price, w1) = get_portfolio_value self w;
          (final_price, w2) = get_portfolio_value self w1;
          years = calculate_years_difference self start_date end_date
      in case calculate_profit_percentage self initial_price final_price of
           Inl e \<Rightarrow> (Inl e, self, w2)
         | Inr total_profit \<Rightarrow>
             (case calculate_annualized_return self initial_price final_price years of
                Inl e \<Rightarrow> (Inl e, self, w2)
              | Inr annualized_profit \<Rightarrow>
                  (Inr (), self,
                   print (''Annualized profit: '' @ format_2f annualized_profit @ ''%'')
                     (print (''Profit since '' @ start_date_str @ '': '' @
                             format_2f total_profit @ ''%'') w2))))))"

section \<open>Binary64 arithmetic\<close>

text \<open>
  The sections above compute on real numbers, which settles the control flow, the
  errors and the invariants. The digits that the operations print are those of IEEE 754
  binary64 arithmetic, modelled here: a float is a finite double (a real number that
  binary64 represents), an infinity or a NaN, and every arithmetic operation rounds its
  exact result to the nearest double, ties to even, as the standard prescribes. The
  sign of zero is not tracked; the script produces a zero only as \<open>x - x\<close>, which is
  \<open>+0.0\<close>.
\<close>

datatype float = Finite real | PInf | NInf | NaN

definition ilog2 :: "real \<Rightarrow> int" where
  "ilog2 x = \<lfloor>log 2 x\<rfloor>"

text \<open>
  The exponent of the unit in the last place of \<open>x\<close>: 52 binary places below the
  leading bit, and never below the subnormal spacing \<open>2 powi (-1074)\<close>.
\<close>

definition ulp_exponent :: "real \<Rightarrow> int" where
  "ulp_exponent x = max (ilog2 \<bar>x\<bar> - 52) (- 1074)"

definition rnd :: "real \<Rightarrow> real" where
  "rnd x = (if x = 0 then 0
            else real_of_int (round_half_even (x / 2 powi ulp_exponent x)) * 2 powi ulp_exponent x)"

text \<open>Rounding an exact result: beyond the largest double it overflows to an infinity.\<close>

definition fl :: "real \<Rightarrow> float" where
  "fl x = (if 2 ^ 1024 \<le> \<bar>rnd x\<bar> then (if 0 < x then PInf else NInf) else Finite (rnd x))"

fun fneg :: "float \<Rightarrow> float" where
  "fneg (Finite a) = Finite (- a)"
| "fneg PInf = NInf"
| "fneg NInf = PInf"
| "fneg NaN = NaN"

fun fadd :: "float \<Rightarrow> float \<Rightarrow> float" where
  "fadd (Finite a) (Finite b) = fl (a + b)"
| "fadd NaN _ = NaN"
| "fadd _ NaN = NaN"
| "fadd PInf NInf = NaN"
| "fadd NInf PInf = NaN"
| "fadd PInf _ = PInf"
| "fadd _ PInf = PInf"
| "fadd NInf _ = NInf"
| "fadd _ NInf = NInf"

definition fsub :: "float \<Rightarrow> float \<Rightarrow> float" where
  "fsub a b = fadd a (fneg b)"

text \<open>The sign of a float that is not a NaN: \<open>1\<close>, \<open>0\<close> or \<open>-1\<close>.\<close>

fun fsgn :: "float \<Rightarrow> int" where
  "fsgn (Finite a) = (if a > 0 then 1 else if a < 0 then - 1 else 0)"
| "fsgn PInf = 1"
| "fsgn NInf = - 1"
| "fsgn NaN = 0"

definition inf_of_sign :: "int \<Rightarrow> float" where
  "inf_of_sign s = (if s = 0 then NaN else if s > 0 then PInf else NInf)"

fun fmul :: "float \<Rightarrow> float \<Rightarrow> float" where
  "fmul (Finite a) (Finite b) = fl (a * b)"
| "fmul NaN _ = NaN"
| "fmul _ NaN = NaN"
| "fmul a b = inf_of_sign (fsgn a * fsgn b)"

text \<open>
  The operator \<open>/\<close> on floats raises \<open>ZeroDivisionError\<close> whenever the divisor is zero,
  before looking at the dividend.
\<close>

fun fdiv :: "float \<Rightarrow> float \<Rightarrow> error + float" where
  "fdiv a (Finite b) =
     (if b = 0 then Inl ZeroDivisionError
      else case a of
        Finite x \<Rightarrow> Inr (fl (x / b))
      | NaN \<Rightarrow> Inr NaN
      | _ \<Rightarrow> Inr (inf_of_sign (fsgn a * fsgn (Finite b))))"
| "fdiv NaN _ = Inr NaN"
| "fdiv _ NaN = Inr NaN"
| "fdiv (Finite x) _ = Inr (Finite 0)"
| "fdiv _ _ = Inr NaN"

text \<open>
  \<open>a / b\<close> on integers is the correctly rounded quotient; it raises \<open>OverflowError\<close>
  when the quotient is too large for a float.
\<close>

definition int_truediv :: "int \<Rightarrow> int \<Rightarrow> error + float" where
  "int_truediv a b =
     (if b = 0 then Inl ZeroDivisionError
      else case fl (real_of_int a / real_of_int b) of
        Finite q \<Rightarrow> Inr (Finite q)
      | _ \<Rightarrow> Inl OverflowError)"

text \<open>
  \<open>float ** float\<close>. The interpreter settles the special cases itself and hands a
  finite positive base other than 1 with a finite non-zero exponent to the \<open>pow\<close> of the
  platform's C library. That function is not part of the repository and its last
  binary place is not fixed by any standard, so it is a parameter: it returns its
  result and whether it reported a range error. The interpreter turns an infinite
  result into a range error, forgets a range error that came with a zero result
  (underflow), and raises \<open>OverflowError\<close> on a range error. A negative base with a
  fractional exponent gives a complex number, for which this theory has no values: the
  case is marked \<open>ComplexResult\<close> and never reached by the script.
\<close>

type_synonym libm_pow = "real \<Rightarrow> real \<Rightarrow> float \<times> bool"

definition is_odd_integer :: "real \<Rightarrow> bool" where
  "is_odd_integer x \<longleftrightarrow> real_of_int \<lfloor>x\<rfloor> = x \<and> odd \<lfloor>x\<rfloor>"

fun float_pow64 :: "libm_pow \<Rightarrow> float \<Rightarrow> float \<Rightarrow> error + float" where
  "float_pow64 pow v (Finite w) =
     (if w = 0 then Inr (Finite 1)
      else case v of
        NaN \<Rightarrow> Inr NaN
      | PInf \<Rightarrow> Inr (if w > 0 then PInf else Finite 0)
      | NInf \<Rightarrow> Inr (if w > 0 then (if is_odd_integer w then NInf else PInf) else Finite 0)
      | Finite x \<Rightarrow>
          if x = 0 then (if w < 0 then Inl ZeroDivisionError else Inr (Finite 0))
          else if x < 0 \<and> real_of_int \<lfloor>w\<rfloor> \<noteq> w then Inl ComplexResult
          else if \<bar>x\<bar> = 1 then Inr (Finite (if x < 0 \<and> is_odd_integer w then - 1 else 1))
          else
            let (ix, range_error) = pow \<bar>x\<bar> w;
                range_error' =
                  (if range_error then ix \<noteq> Finite 0 else ix = PInf \<or> ix = NInf)
            in if range_error' then Inl OverflowError
               else Inr (if x < 0 \<and> is_odd_integer w then fneg ix else ix))"
| "float_pow64 pow v NaN =
     (case v of NaN \<Rightarrow> Inr NaN | Finite x \<Rightarrow> Inr (if x = 1 then Finite 1 else NaN) | _ \<Rightarrow> Inr NaN)"
| "float_pow64 pow v w =
     (case v of
        NaN \<Rightarrow> Inr NaN
      | Finite x \<Rightarrow>
          Inr (if \<bar>x\<bar> = 1 then Finite 1
               else if (w = PInf) = (\<bar>x\<bar> > 1) then PInf else Finite 0)
      | _ \<Rightarrow> Inr (if w = PInf then PInf else Finite 0))"

subsection \<open>The script on binary64\<close>

text \<open>
  The same functions as above, with the arithmetic of the source carried out on
  doubles: \<open>c / 100\<close> is a division of integers, \<open>i + x\<close> adds a small integer,
  converted exactly, to a float, and \<open>sum\<close> starts from 0 and adds the prices from left
  to right, each addition rounded (the accumulation of CPython up to version 3.11).
\<close>

definition generate_random_price64 :: "Stock \<Rightarrow> world \<Rightarrow> (error + float) \<times> world" where
  "generate_random_price64 self w =
     (let (i, w1) = randint 1 1000 w;
          (c, w2) = randint 1 100 w1
      in case int_truediv c 100 of
           Inl e \<Rightarrow> (Inl e, w2)
         | Inr x \<Rightarrow> (Inr (fadd (fl (real_of_int i)) x), w2))"

definition get_price64 :: "Stock \<Rightarrow> world \<Rightarrow> (error + float) \<times> world" where
  "get_price64 self w = generate_random_price64 self w"

fun sum_prices64 :: "Stock list \<Rightarrow> float \<Rightarrow> world \<Rightarrow> (error + float) \<times> world" where
  "sum_prices64 [] acc w = (Inr acc, w)"
| "sum_prices64 (stock # rest) acc w =
     (case get_price64 stock w of
        (Inl e, w') \<Rightarrow> (Inl e, w')
      | (Inr p, w') \<Rightarrow> sum_prices64 rest (fadd acc p) w')"

definition get_portfolio_value64 :: "Portfolio \<Rightarrow> world \<Rightarrow> (error + float) \<times> world" where
  "get_portfolio_value64 self w = sum_prices64 (stocks self) (Finite 0) w"

definition calculate_years_difference64 :: "Portfolio \<Rightarrow> datetime \<Rightarrow> datetime \<Rightarrow> error + float" where
  "calculate_years_difference64 self start_date end_date =
     int_truediv (calculate_days_difference self start_date end_date) 365"

definition calculate_annualized_return64 ::
  "libm_pow \<Rightarrow> Portfolio \<Rightarrow> float \<Rightarrow> float \<Rightarrow> float \<Rightarrow> error + float" where
  "calculate_annualized_return64 pow self initial_price final_price years =
     (case fdiv final_price initial_price of
        Inl e \<Rightarrow> Inl e
      | Inr q \<Rightarrow>
          (case fdiv (Finite 1) years of
             Inl e \<Rightarrow> Inl e
           | Inr e \<Rightarrow>
               (case float_pow64 pow q e of
                  Inl err \<Rightarrow> Inl err
                | Inr r \<Rightarrow> Inr (fmul (fsub r (Finite 1)) (Finite 100)))))"

definition calculate_profit_percentage64 :: "Portfolio \<Rightarrow> float \<Rightarrow> float \<Rightarrow> error + float" where
  "calculate_profit_percentage64 self initial_price final_price =
     (case fdiv (fsub final_price initial_price) initial_price of
        Inl e \<Rightarrow> Inl e
      | Inr q \<Rightarrow> Inr (fmul q (Finite 100)))"

text \<open>\<open>f"{x:.2f}"\<close> on a float: an infinity and a NaN are printed by name.\<close>

definition format64 :: "float \<Rightarrow> string" where
  "format64 x =
     (case x of Finite r \<Rightarrow> format_2f r | PInf \<Rightarrow> ''inf'' | NInf \<Rightarrow> ''-inf'' | NaN \<Rightarrow> ''nan'')"

definition calculate_profit_between64 ::
  "Portfolio \<Rightarrow> string \<Rightarrow> string \<Rightarrow> world \<Rightarrow> (error + unit) \<times> Portfolio \<times> world" where
  "calculate_profit_between64 self start_date_str end_date_str w =
     (case validate_date_format self start_date_str of
        Inl e \<Rightarrow> (Inl e, self, w)
      | Inr _ \<Rightarrow>
     (case validate_date_format self end_date_str of
        Inl e \<Rightarrow> (Inl e, self, w)
      | Inr _ \<Rightarrow>
     (case get_portfolio_value64 self w of
        (Inl e, w1) \<Rightarrow> (Inl e, self, w1)
      | (Inr initial_price, w1) \<Rightarrow>
     (case get_portfolio_value64 self w1 of
        (Inl e, w2) \<Rightarrow> (Inl e, self, w2)
      | (Inr final_price, w2) \<Rightarrow>
     (case calculate_profit_percentage64 self initial_price final_price of
        Inl e \<Rightarrow> (Inl e, self, w2)
      | Inr total_profit \<Rightarrow>
          (Inr (), self,
           print (''Profit between '' @ start_date_str @ '' and '' @ end_date_str @ '': '' @
                  format64 total_profit @ ''%'') w2))))))"

definition calculate_profit_annualized64 ::
  "libm_pow \<Rightarrow> Portfolio \<Rightarrow> string \<Rightarrow> string \<Rightarrow> world \<Rightarrow>
   (error + unit) \<times> Portfolio \<times> world" where
  "calculate_profit_annualized64 pow self start_date_str end_date_str w =
     (case validate_date_format self start_date_str of
        Inl e \<Rightarrow> (Inl e, self, w)
      | Inr start_date \<Rightarrow>
     (case validate_date_format self end_date_str of
        Inl e \<Rightarrow> (Inl e, self, w)
      | Inr end_date \<Rightarrow>
     (case get_portfolio_value64 self w of
        (Inl e, w1) \<Rightarrow> (Inl e, self, w1)
      | (Inr initial_price, w1) \<Rightarrow>
     (case get_portfolio_value64 self w1 of
        (Inl e, w2) \<Rightarrow> (Inl e, self, w2)
      | (Inr final_price, w2) \<Rightarrow>
     (case calculate_years_difference64 self start_date end_date of
        Inl e \<Rightarrow> (Inl e, self, w2)
      | Inr years \<Rightarrow>
     (case calculate_profit_percentage64 self initial_price final_price of
        Inl e \<Rightarrow> (Inl e, self, w2)
      | Inr total_profit \<Rightarrow>
     (case calculate_annualized_return64 pow self initial_price final_price years of
        Inl e \<Rightarrow> (Inl e, self, w2)
      | Inr annualized_profit \<Rightarrow>
          (Inr (), self,
           print (''Annualized profit: '' @ format64 annualized_profit @ ''%'')
             (print (''Profit since '' @ start_date_str @ '': '' @
                     format64 total_profit @ ''%'') w2)))))))))"

section \<open>Vocabulary of the properties\<close>

text \<open>A generator whose first draw is \<open>a\<close> and whose later draws are \<open>b\<close>.\<close>

definition draws2 :: "nat \<Rightarrow> nat \<Rightarrow> world" where
  "draws2 a b = \<lparr>entropy = (\<lambda>i. if i = 0 then a else b), cursor = 0, stdout = []\<rparr>"

text \<open>A calendar date as a \<open>datetime\<close>: midnight of that day.\<close>

definition date :: "int \<Rightarrow> int \<Rightarrow> int \<Rightarrow> datetime" where
  "date y m d = \<lparr>year = y, month = m, day = d, hour = 0, minute = 0, second = 0, microsecond = 0\<rparr>"

definition is_date :: "datetime \<Rightarrow> bool" where
  "is_date dt \<longleftrightarrow> hour dt = 0 \<and> minute dt = 0 \<and> second dt = 0 \<and> microsecond dt = 0"

definition calendar_date :: "int \<Rightarrow> int \<Rightarrow> int \<Rightarrow> bool" where
  "calendar_date y m d \<longleftrightarrow> 1 \<le> y \<and> 1 \<le> m \<and> m \<le> 12 \<and> 1 \<le> d \<and> d \<le> days_in_month y m"

text \<open>
  The strict pattern of the specification: four digits, a dash, two digits, a dash, two
  digits; and the year, month and day written in such a string.
\<close>

fun strict_ymd :: "string \<Rightarrow> bool" where
  "strict_ymd [y1, y2, y3, y4, s1, m1, m2, s2, d1, d2] \<longleftrightarrow>
     is_digit y1 \<and> is_digit y2 \<and> is_digit y3 \<and> is_digit y4 \<and> s1 = CHR ''-'' \<and>
     is_digit m1 \<and> is_digit m2 \<and> s2 = CHR ''-'' \<and> is_digit d1 \<and> is_digit d2"
| "strict_ymd _ \<longleftrightarrow> False"

definition written_year :: "string \<Rightarrow> int" where
  "written_year s = decimal (take 4 s)"

definition written_month :: "string \<Rightarrow> int" where
  "written_month s = decimal (take 2 (drop 5 s))"

definition written_day :: "string \<Rightarrow> int" where
  "written_day s = decimal (drop 8 s)"

text \<open>
  The strings the validator accepts, stated on the text split at its dashes: a year of
  four digits, a month from 1 to 12 written with one or two digits, and a day written
  with one or two digits, or with a blank and one digit, that exists in that month.
\<close>

fun split_on :: "char \<Rightarrow> string \<Rightarrow> string list" where
  "split_on c [] = [[]]"
| "split_on c (x # xs) =
     (if x = c then [] # split_on c xs
      else (case split_on c xs of h # t \<Rightarrow> (x # h) # t | [] \<Rightarrow> [[x]]))"

text \<open>The inverse of splitting: the pieces joined with the separator.\<close>

fun join_on :: "char \<Rightarrow> string list \<Rightarrow> string" where
  "join_on c [] = []"
| "join_on c [x] = x"
| "join_on c (x # y # r) = x @ c # join_on c (y # r)"

definition month_text :: "string \<Rightarrow> bool" where
  "month_text m \<longleftrightarrow>
     (length m = 1 \<or> length m = 2) \<and> list_all is_digit m \<and> 1 \<le> decimal m \<and> decimal m \<le> 12"

definition day_text :: "string \<Rightarrow> bool" where
  "day_text d \<longleftrightarrow>
     ((length d = 1 \<or> length d = 2) \<and> list_all is_digit d \<and> 1 \<le> decimal d \<and> decimal d \<le> 31) \<or>
     (length d = 2 \<and> hd d = CHR '' '' \<and> digit_1_9 (d ! 1))"

definition accepted_ymd :: "string \<Rightarrow> bool" where
  "accepted_ymd s =
     (case split_on CHR ''-'' s of
        [y, m, d] \<Rightarrow>
          length y = 4 \<and> list_all is_digit y \<and> month_text m \<and> day_text d \<and>
          calendar_date (decimal y) (decimal m) (py_int d)
      | _ \<Rightarrow> False)"

text \<open>What the constructor establishes for a portfolio.\<close>

definition portfolio_inv :: "Portfolio \<Rightarrow> bool" where
  "portfolio_inv p \<longleftrightarrow>
     1 \<le> length (stocks p) \<and> length (stocks p) \<le> 8 \<and>
     set (map name (stocks p)) \<subseteq> set CUSTOM_RANDOM_STOCKS \<and>
     distinct (map name (stocks p))"


text \<open>A generator that yields the given raw draws in order, and 0 after them.\<close>

definition draws :: "nat list \<Rightarrow> world" where
  "draws xs = \<lparr>entropy = (\<lambda>i. if i < length xs then xs ! i else 0), cursor = 0, stdout = []\<rparr>"

text \<open>
  Reading a printed number with two decimals, from the specification's words "to two
  decimal places": an optional minus sign, an integer part in decimal digits without a
  superfluous leading zero, a point and exactly two digits. The result is the sign and
  the number of hundredths.
\<close>

fun read_digits :: "string \<Rightarrow> nat option" where
  "read_digits [] = None"
| "read_digits [c] = (if is_digit c then Some (nat (digit_value c)) else None)"
| "read_digits (c # cs) =
     (if is_digit c then
        (case read_digits cs of
           Some n \<Rightarrow> Some (nat (digit_value c) * 10 ^ length cs + n)
         | None \<Rightarrow> None)
      else None)"

definition read_nat :: "string \<Rightarrow> nat option" where
  "read_nat s = (if 1 < length s \<and> hd s = CHR ''0'' then None else read_digits s)"

definition read_2f :: "string \<Rightarrow> (bool \<times> nat) option" where
  "read_2f txt =
     (let neg = (txt \<noteq> [] \<and> hd txt = CHR ''-'');
          body = (if neg then tl txt else txt)
      in case split_on CHR ''.'' body of
           [ip, fp] \<Rightarrow>
             (if length fp = 2 then
                (case (read_nat ip, read_digits fp) of
                   (Some a, Some b) \<Rightarrow> Some (neg, 100 * a + b)
                 | _ \<Rightarrow> None)
              else None)
         | _ \<Rightarrow> None)"

text \<open>
  The text shows the number to two decimal places: it reads as the sign of the number and
  the hundredths nearest to its magnitude, the even one of two equally near.
\<close>

definition shows_2f :: "string \<Rightarrow> real \<Rightarrow> bool" where
  "shows_2f txt x =
     (case read_2f txt of
        None \<Rightarrow> False
      | Some (neg, n) \<Rightarrow>
          neg = (x < 0) \<and>
          \<bar>real n / 100 - \<bar>x\<bar>\<bar> \<le> 1 / 200 \<and>
          (even n \<or> \<bar>real n / 100 - \<bar>x\<bar>\<bar> < 1 / 200))"

text \<open>
  A reference \<open>pow\<close> for the examples: the correctly rounded power, with a range error
  on overflow and on underflow to zero. The platform's function may differ from it in
  the last binary place of a finite result; it cannot differ where the exact power is
  far outside the range of doubles, or where the exponent is 1.
\<close>

definition libm_pow_ref :: libm_pow where
  "libm_pow_ref x y =
     (case fl (x powr y) of
        Finite r \<Rightarrow> (Finite r, r = 0)
      | z \<Rightarrow> (z, True))"

text \<open>The portfolio that the constructor builds when every draw of the generator is 0.\<close>

definition MSFT_only :: Portfolio where
  "MSFT_only = \<lparr>stocks = [\<lparr>name = ''MSFT''\<rparr>]\<rparr>"

section \<open>Price generator\<close>

lemma randint_range:
  assumes "a \<le> b"
  shows "a \<le> fst (randint a b w) \<and> fst (randint a b w) \<le> b"
proof -
  have "0 < nat (b - a + 1)" using assms by simp
  then have "entropy w (cursor w) mod nat (b - a + 1) < nat (b - a + 1)"
    by (rule mod_less_divisor)
  then have "int (entropy w (cursor w) mod nat (b - a + 1)) < b - a + 1"
    by linarith
  moreover have "fst (randint a b w) = a + int (entropy w (cursor w) mod nat (b - a + 1))"
    by (simp add: randint_def randbelow_def)
  ultimately show ?thesis by linarith
qed

lemma randint_cursor: "cursor (snd (randint a b w)) = cursor w + 1"
  by (simp add: randint_def randbelow_def)

lemma randint_stdout: "stdout (snd (randint a b w)) = stdout w"
  by (simp add: randint_def randbelow_def)

lemma randint_entropy: "entropy (snd (randint a b w)) = entropy w"
  by (simp add: randint_def randbelow_def)

lemma generate_random_price_parts:
  "\<exists>i c. 1 \<le> i \<and> i \<le> 1000 \<and> 1 \<le> c \<and> c \<le> 100 \<and>
     fst (generate_random_price s w) = real_of_int i + real_of_int c / 100"
proof -
  obtain i w1 where a: "randint 1 1000 w = (i, w1)" by (cases "randint 1 1000 w")
  obtain c w2 where b: "randint 1 100 w1 = (c, w2)" by (cases "randint 1 100 w1")
  have "1 \<le> i \<and> i \<le> 1000" using randint_range [of 1 1000 w] a by simp
  moreover have "1 \<le> c \<and> c \<le> 100" using randint_range [of 1 100 w1] b by simp
  moreover have "fst (generate_random_price s w) = real_of_int i + real_of_int c / 100"
    by (simp add: generate_random_price_def a b)
  ultimately show ?thesis by blast
qed

lemma get_price_bounds:
  "101 / 100 \<le> fst (get_price s w) \<and> fst (get_price s w) \<le> 1001"
proof -
  obtain i c :: int where h: "1 \<le> i" "i \<le> 1000" "1 \<le> c" "c \<le> 100"
    and p: "fst (generate_random_price s w) = real_of_int i + real_of_int c / 100"
    using generate_random_price_parts by blast
  have "1 \<le> real_of_int i" "real_of_int i \<le> 1000" "1 \<le> real_of_int c" "real_of_int c \<le> 100"
    using h by simp_all
  then show ?thesis unfolding get_price_def p by simp
qed

text \<open>
  C1. The docstring of \<open>_generate_random_price\<close> and the specification give the closed
  range [1.01, 1000.99] for a price. The integer part is drawn from 1..1000 and the cents
  part from 1..100, so when the generator yields 1000 and then 100 the price returned by
  \<open>get_price\<close> is 1001.00, above the documented maximum.
\<close>

theorem get_price_exceeds_documented_maximum:
  "fst (get_price \<lparr>name = ''MSFT''\<rparr> (draws2 999 99)) = 1001 \<and>
   \<not> (fst (get_price \<lparr>name = ''MSFT''\<rparr> (draws2 999 99)) \<le> 100099 / 100)"
  by (simp add: get_price_def generate_random_price_def randint_def randbelow_def draws2_def)

section \<open>Sampling and construction\<close>

lemma randbelow_less: "0 < n \<Longrightarrow> fst (randbelow n w) < n"
  by (simp add: randbelow_def)

lemma randbelow_world: "snd (randbelow n w) = w\<lparr>cursor := cursor w + 1\<rparr>"
  by (simp add: randbelow_def)

lemma sample_loop_correct:
  "k \<le> n \<Longrightarrow> n \<le> length pool \<Longrightarrow> distinct (take n pool) \<Longrightarrow>
   length (fst (sample_loop pool n k w)) = k \<and>
   distinct (fst (sample_loop pool n k w)) \<and>
   set (fst (sample_loop pool n k w)) \<subseteq> set (take n pool)"
proof (induction k arbitrary: pool n w)
  case 0
  then show ?case by simp
next
  case (Suc k)
  obtain j w1 where rb: "randbelow n w = (j, w1)" by (cases "randbelow n w")
  have npos: "0 < n" using Suc.prems by simp
  have jn: "j < n" using randbelow_less [OF npos, of w] rb by simp
  define v where "v = pool ! (n - 1)"
  define A where "A = take (n - 1) pool"
  define pool' where "pool' = pool[j := v]"
  have split: "take n pool = A @ [v]"
    using npos Suc.prems(2) unfolding A_def v_def
    by (metis Suc_diff_1 Suc_le_lessD take_Suc_conv_app_nth)
  have dA: "distinct A" and vA: "v \<notin> set A"
    using Suc.prems(3) split by simp_all
  have lenA: "length A = n - 1" using Suc.prems(2) by (simp add: A_def)
  have x_in: "pool ! j \<in> set (take n pool)"
    using jn Suc.prems(2) by (metis in_set_conv_nth length_take min.absorb2 nth_take)
  have tk: "take (n - 1) pool' = (if j < n - 1 then A[j := v] else A)"
    unfolding pool'_def A_def using Suc.prems(2) by (simp add: take_update_swap list_update_beyond)
  have d': "distinct (take (n - 1) pool')"
    using dA vA tk by (simp add: distinct_list_update)
  have sub': "set (take (n - 1) pool') \<subseteq> set (take n pool) - {pool ! j}"
  proof (cases "j < n - 1")
    case True
    then have "A ! j = pool ! j" by (simp add: A_def)
    moreover have "set (A[j := v]) = insert v (set A - {A ! j})"
      using dA True lenA by (simp add: set_update_distinct)
    moreover have "v \<noteq> A ! j" using vA True lenA by (metis nth_mem)
    ultimately show ?thesis using tk True split by auto
  next
    case False
    then have "j = n - 1" using jn by simp
    then have "pool ! j = v" by (simp add: v_def)
    then show ?thesis using tk False split vA by auto
  qed
  obtain rest w2 where rec: "sample_loop pool' (n - 1) k w1 = (rest, w2)"
    by (cases "sample_loop pool' (n - 1) k w1")
  have ih: "length rest = k \<and> distinct rest \<and> set rest \<subseteq> set (take (n - 1) pool')"
    using Suc.IH [of "n - 1" pool' w1] Suc.prems d' rec by (simp add: pool'_def)
  have res: "fst (sample_loop pool n (Suc k) w) = pool ! j # rest"
    using rb rec by (simp add: pool'_def v_def)
  show ?case unfolding res using ih sub' x_in by auto
qed

lemma sample_loop_stdout: "stdout (snd (sample_loop pool n k w)) = stdout w"
proof (induction k arbitrary: pool n w)
  case 0
  then show ?case by simp
next
  case (Suc k)
  obtain j w1 where rb: "randbelow n w = (j, w1)" by (cases "randbelow n w")
  have "stdout w1 = stdout w" using rb by (auto simp: randbelow_def)
  moreover have "stdout (snd (sample_loop (pool[j := pool ! (n - 1)]) (n - 1) k w1)) = stdout w1"
    by (rule Suc.IH)
  ultimately show ?case using rb by (simp add: split_beta)
qed

lemma catalog_distinct: "distinct CUSTOM_RANDOM_STOCKS"
  by (simp add: CUSTOM_RANDOM_STOCKS_def)

lemma catalog_length: "length CUSTOM_RANDOM_STOCKS = 8"
  by (simp add: CUSTOM_RANDOM_STOCKS_def)

lemma map_name_Stock: "map name (map (\<lambda>n. \<lparr>name = n\<rparr>) xs) = xs"
  by (induction xs) simp_all

lemma Portfolio_init_inv:
  "\<exists>p w'. Portfolio_init w = (Inr p, w') \<and> portfolio_inv p \<and> stdout w' = stdout w"
proof -
  obtain c w1 where ri: "randint 1 8 w = (c, w1)" by (cases "randint 1 8 w")
  have cr: "1 \<le> c \<and> c \<le> 8" using randint_range [of 1 8 w] ri by simp
  obtain r w2 where sl: "sample_loop CUSTOM_RANDOM_STOCKS 8 (nat c) w1 = (r, w2)"
    by (cases "sample_loop CUSTOM_RANDOM_STOCKS 8 (nat c) w1")
  have "nat c \<le> 8" using cr by linarith
  then have props: "length r = nat c \<and> distinct r \<and> set r \<subseteq> set CUSTOM_RANDOM_STOCKS"
    using sample_loop_correct [of "nat c" 8 CUSTOM_RANDOM_STOCKS w1] sl
    by (simp add: catalog_distinct catalog_length)
  have so: "stdout w2 = stdout w"
    using sample_loop_stdout [of CUSTOM_RANDOM_STOCKS 8 "nat c" w1] sl
      randint_stdout [of 1 8 w] ri by simp
  have "Portfolio_init w = (Inr \<lparr>stocks = map (\<lambda>n. \<lparr>name = n\<rparr>) r\<rparr>, w2)"
    using ri sl cr
    by (simp add: Portfolio_init_def generate_random_stocks_def sample_def catalog_length)
  moreover have "1 \<le> nat c \<and> nat c \<le> 8" using cr by linarith
  then have "portfolio_inv \<lparr>stocks = map (\<lambda>n. \<lparr>name = n\<rparr>) r\<rparr>"
    using props by (simp add: portfolio_inv_def map_name_Stock del: map_map)
  ultimately show ?thesis using so by blast
qed

lemma get_price_world:
  "snd (get_price s w) = w\<lparr>cursor := cursor w + 2\<rparr>"
  by (simp add: get_price_def generate_random_price_def randint_def randbelow_def)

lemma sum_prices_world:
  "snd (sum_prices ss acc w) = w\<lparr>cursor := cursor w + 2 * length ss\<rparr>"
proof (induction ss arbitrary: acc w)
  case Nil
  then show ?case by simp
next
  case (Cons s ss)
  obtain p w' where gp: "get_price s w = (p, w')" by (cases "get_price s w")
  have "w' = w\<lparr>cursor := cursor w + 2\<rparr>" using get_price_world [of s w] gp by simp
  then show ?case using Cons.IH [of "acc + p" w'] gp by simp
qed

lemma sum_prices_lower:
  "acc + 101 / 100 * real (length ss) \<le> fst (sum_prices ss acc w)"
proof (induction ss arbitrary: acc w)
  case Nil
  then show ?case by simp
next
  case (Cons s ss)
  obtain p w' where gp: "get_price s w = (p, w')" by (cases "get_price s w")
  have "101 / 100 \<le> p" using get_price_bounds [of s w] gp by simp
  moreover have "acc + p + 101 / 100 * real (length ss) \<le> fst (sum_prices ss (acc + p) w')"
    by (rule Cons.IH)
  ultimately have "acc + 101 / 100 * (1 + real (length ss)) \<le> fst (sum_prices ss (acc + p) w')"
    by (simp only: distrib_left)
  then show ?case using gp by simp
qed

lemma get_portfolio_value_world:
  "snd (get_portfolio_value p w) = w\<lparr>cursor := cursor w + 2 * length (stocks p)\<rparr>"
  by (simp add: get_portfolio_value_def sum_prices_world)

lemma get_portfolio_value_lower:
  "stocks p \<noteq> [] \<Longrightarrow> 101 / 100 \<le> fst (get_portfolio_value p w)"
proof -
  assume "stocks p \<noteq> []"
  then have "1 \<le> real (length (stocks p))" by (cases "stocks p") simp_all
  then have "101 / 100 \<le> 0 + 101 / 100 * real (length (stocks p))" by simp
  also have "\<dots> \<le> fst (sum_prices (stocks p) 0 w)" by (rule sum_prices_lower)
  finally show ?thesis by (simp add: get_portfolio_value_def)
qed

lemma strptime_error: "strptime s = Inl e \<Longrightarrow> e = ValueError"
  by (auto simp: strptime_def check_date_fields_def split: list.splits prod.splits if_splits sum.splits)

lemma validate_error:
  "validate_date_format p s = Inl e \<Longrightarrow> e = InvalidDateFormat_init s"
  using strptime_error [of s]
  by (auto simp: validate_date_format_def split: sum.splits error.splits)

lemma strptime_midnight:
  "strptime s = Inr dt \<Longrightarrow> hour dt = 0 \<and> minute dt = 0 \<and> second dt = 0 \<and> microsecond dt = 0"
  by (auto simp: strptime_def split: list.splits prod.splits if_splits sum.splits)

lemma validate_Inr: "validate_date_format p s = Inr dt \<longleftrightarrow> strptime s = Inr dt"
  by (auto simp: validate_date_format_def split: sum.splits error.splits)

section \<open>Date validation\<close>

lemma is_digit_cases:
  "is_digit c \<longleftrightarrow> c = CHR ''0'' \<or> c = CHR ''1'' \<or> c = CHR ''2'' \<or> c = CHR ''3'' \<or> c = CHR ''4'' \<or>
     c = CHR ''5'' \<or> c = CHR ''6'' \<or> c = CHR ''7'' \<or> c = CHR ''8'' \<or> c = CHR ''9''"
  by (auto simp: is_digit_def)

lemma digit_1_9_cases:
  "digit_1_9 c \<longleftrightarrow> c = CHR ''1'' \<or> c = CHR ''2'' \<or> c = CHR ''3'' \<or> c = CHR ''4'' \<or>
     c = CHR ''5'' \<or> c = CHR ''6'' \<or> c = CHR ''7'' \<or> c = CHR ''8'' \<or> c = CHR ''9''"
  by (auto simp: digit_1_9_def)

lemma digit_1_9_is_digit: "digit_1_9 c \<Longrightarrow> is_digit c"
  by (auto simp: digit_1_9_def is_digit_def)

lemma is_digit_not_dash: "is_digit c \<Longrightarrow> c \<noteq> CHR ''-''"
  by (auto simp: is_digit_def)

lemma is_digit_not_blank: "is_digit c \<Longrightarrow> c \<noteq> CHR '' ''"
  by (auto simp: is_digit_def)

lemma digit_value_range: "is_digit c \<Longrightarrow> 0 \<le> digit_value c \<and> digit_value c \<le> 9"
  unfolding is_digit_cases by (elim disjE) (simp_all add: digit_value_def)

lemma decimal_1: "decimal [a] = digit_value a"
  by (simp add: decimal_def)

lemma decimal_2: "decimal [a, b] = 10 * digit_value a + digit_value b"
  by (simp add: decimal_def)

lemma decimal_4:
  "decimal [a, b, c, d] = 1000 * digit_value a + 100 * digit_value b + 10 * digit_value c + digit_value d"
  by (simp add: decimal_def)

lemma py_int_digits: "s \<noteq> [] \<Longrightarrow> is_digit (hd s) \<Longrightarrow> py_int s = decimal s"
  by (cases s) (auto simp: py_int_def dest: is_digit_not_blank)

lemma py_int_blank: "digit_1_9 c \<Longrightarrow> py_int [CHR '' '', c] = digit_value c"
  unfolding digit_1_9_cases by (elim disjE) (simp_all add: py_int_def decimal_def)

subsection \<open>Every match has the shape of the pattern\<close>

lemma alt1_sound: "(x, r) \<in> set (alt1 P s) \<Longrightarrow> \<exists>a. s = a # r \<and> x = [a] \<and> P a"
  by (cases s) (auto split: if_splits)

lemma alt2_sound: "(x, r) \<in> set (alt2 P Q s) \<Longrightarrow> \<exists>a b. s = a # b # r \<and> x = [a, b] \<and> P a \<and> Q b"
  by (cases "(P, Q, s)" rule: alt2.cases) (auto split: if_splits)

lemma re_Y_sound:
  "(y, r) \<in> set (re_Y s) \<Longrightarrow> s = y @ r \<and> length y = 4 \<and> list_all is_digit y"
  by (cases s rule: re_Y.cases) (auto split: if_splits)

lemma re_dash_sound: "(x, r) \<in> set (re_dash s) \<Longrightarrow> s = CHR ''-'' # r"
  by (auto simp: re_dash_def dest: alt1_sound)

lemma then_dash_sound:
  "(x, r) \<in> set (then_dash g s) \<Longrightarrow> \<exists>r'. (x, r') \<in> set (g s) \<and> r' = CHR ''-'' # r"
  by (auto simp: then_dash_def dest: re_dash_sound)

lemma month_text_1: "month_text [a] \<longleftrightarrow> digit_1_9 a"
  by (auto simp: month_text_def decimal_1 is_digit_def digit_1_9_def digit_value_def)

lemma month_text_2:
  "month_text [a, b] \<longleftrightarrow>
     (a = CHR ''1'' \<and> b \<in> set ''012'') \<or> (a = CHR ''0'' \<and> digit_1_9 b)"
proof (cases "is_digit a \<and> is_digit b")
  case True
  then have A: "a = CHR ''0'' \<or> a = CHR ''1'' \<or> a = CHR ''2'' \<or> a = CHR ''3'' \<or> a = CHR ''4'' \<or>
     a = CHR ''5'' \<or> a = CHR ''6'' \<or> a = CHR ''7'' \<or> a = CHR ''8'' \<or> a = CHR ''9''"
    and B: "b = CHR ''0'' \<or> b = CHR ''1'' \<or> b = CHR ''2'' \<or> b = CHR ''3'' \<or> b = CHR ''4'' \<or>
     b = CHR ''5'' \<or> b = CHR ''6'' \<or> b = CHR ''7'' \<or> b = CHR ''8'' \<or> b = CHR ''9''"
    by (simp_all add: is_digit_cases)
  from A B show ?thesis
    by (elim disjE) (simp_all add: month_text_def decimal_2 digit_value_def is_digit_def digit_1_9_def)
next
  case False
  then show ?thesis by (auto simp: month_text_def is_digit_def digit_1_9_def)
qed

lemma day_text_2:
  "day_text [a, b] \<longleftrightarrow>
     (a = CHR ''3'' \<and> b \<in> set ''01'') \<or> (a \<in> set ''12'' \<and> is_digit b) \<or>
     (a = CHR ''0'' \<and> digit_1_9 b) \<or> (a = CHR '' '' \<and> digit_1_9 b)"
proof (cases "is_digit a \<and> is_digit b")
  case True
  then have A: "a = CHR ''0'' \<or> a = CHR ''1'' \<or> a = CHR ''2'' \<or> a = CHR ''3'' \<or> a = CHR ''4'' \<or>
     a = CHR ''5'' \<or> a = CHR ''6'' \<or> a = CHR ''7'' \<or> a = CHR ''8'' \<or> a = CHR ''9''"
    and B: "b = CHR ''0'' \<or> b = CHR ''1'' \<or> b = CHR ''2'' \<or> b = CHR ''3'' \<or> b = CHR ''4'' \<or>
     b = CHR ''5'' \<or> b = CHR ''6'' \<or> b = CHR ''7'' \<or> b = CHR ''8'' \<or> b = CHR ''9''"
    by (simp_all add: is_digit_cases)
  from A B show ?thesis
    by (elim disjE) (simp_all add: day_text_def decimal_2 digit_value_def is_digit_def digit_1_9_def)
next
  case False
  then show ?thesis by (auto simp: day_text_def is_digit_def digit_1_9_def)
qed

lemma day_text_1: "day_text [a] \<longleftrightarrow> digit_1_9 a"
  by (auto simp: day_text_def decimal_1 is_digit_def digit_1_9_def digit_value_def)

lemma re_m_sound: "(m, r) \<in> set (re_m s) \<Longrightarrow> s = m @ r \<and> month_text m"
  unfolding re_m_def set_append Un_iff
  by (elim disjE; drule alt1_sound alt2_sound) (auto simp: month_text_1 month_text_2)

lemma re_d_sound: "(d, r) \<in> set (re_d s) \<Longrightarrow> s = d @ r \<and> day_text d"
  unfolding re_d_def set_append Un_iff
  by (elim disjE; drule alt1_sound alt2_sound) (auto simp: day_text_1 day_text_2)

lemma regex_match_sound:
  assumes "(y, m, d, r) \<in> set (regex_match s)"
  shows "s = y @ CHR ''-'' # m @ CHR ''-'' # d @ r \<and>
         length y = 4 \<and> list_all is_digit y \<and> month_text m \<and> day_text d"
proof -
  from assms obtain r1 r2 where
    a: "(y, r1) \<in> set (then_dash re_Y s)" and
    b: "(m, r2) \<in> set (then_dash re_m r1)" and
    c: "(d, r) \<in> set (re_d r2)"
    by (auto simp: regex_match_def)
  from a have "(y, CHR ''-'' # r1) \<in> set (re_Y s)" by (auto dest: then_dash_sound)
  then have y: "s = y @ CHR ''-'' # r1 \<and> length y = 4 \<and> list_all is_digit y"
    by (auto dest: re_Y_sound)
  from b have "(m, CHR ''-'' # r2) \<in> set (re_m r1)" by (auto dest: then_dash_sound)
  then have m: "r1 = m @ CHR ''-'' # r2 \<and> month_text m" by (auto dest: re_m_sound)
  from c have d: "r2 = d @ r \<and> day_text d" by (auto dest: re_d_sound)
  show ?thesis using y m d by simp
qed

subsection \<open>Every text of that shape is matched, whole\<close>

lemma then_dash_re_Y:
  assumes "length y = 4" and "list_all is_digit y"
  shows "then_dash re_Y (y @ CHR ''-'' # r) = [(y, r)]"
proof -
  from assms(1) obtain a b c d where y: "y = [a, b, c, d]"
    by (cases y; cases "tl y"; cases "tl (tl y)"; cases "tl (tl (tl y))") auto
  show ?thesis using assms(2) unfolding y by (simp add: then_dash_def re_dash_def)
qed

lemma month_text_cases:
  assumes "month_text m"
  obtains a where "m = [a]" "digit_1_9 a"
  | a b where "m = [a, b]" "(a = CHR ''1'' \<and> b \<in> set ''012'') \<or> (a = CHR ''0'' \<and> digit_1_9 b)"
proof -
  from assms have "length m = 1 \<or> length m = 2" by (simp add: month_text_def)
  then show thesis
  proof
    assume "length m = 1"
    then obtain a where "m = [a]" by (cases m) auto
    then show thesis using assms that(1) by (simp add: month_text_1)
  next
    assume "length m = 2"
    then obtain a b where "m = [a, b]" by (cases m; cases "tl m") auto
    then show thesis using assms that(2) by (simp add: month_text_2)
  qed
qed

lemma then_dash_re_m:
  assumes "month_text m"
  shows "then_dash re_m (m @ CHR ''-'' # r) = [(m, r)]"
  using assms
proof (cases rule: month_text_cases)
  case (1 a)
  then show ?thesis
    by (auto simp: then_dash_def re_dash_def re_m_def digit_1_9_def)
next
  case (2 a b)
  then show ?thesis
    by (auto simp: then_dash_def re_dash_def re_m_def digit_1_9_def)
qed

lemma day_text_cases:
  assumes "day_text d"
  obtains a where "d = [a]" "digit_1_9 a"
  | a b where "d = [a, b]" "(a = CHR ''3'' \<and> b \<in> set ''01'') \<or> (a \<in> set ''12'' \<and> is_digit b) \<or>
     (a = CHR ''0'' \<and> digit_1_9 b) \<or> (a = CHR '' '' \<and> digit_1_9 b)"
proof -
  from assms have "length d = 1 \<or> length d = 2" by (auto simp: day_text_def)
  then show thesis
  proof
    assume "length d = 1"
    then obtain a where "d = [a]" by (cases d) auto
    then show thesis using assms that(1) by (simp add: day_text_1)
  next
    assume "length d = 2"
    then obtain a b where "d = [a, b]" by (cases d; cases "tl d") auto
    then show thesis using assms that(2) by (simp add: day_text_2)
  qed
qed

lemma blank_not_digit_1_9: "\<not> digit_1_9 CHR '' ''"
  by (simp add: digit_1_9_def)

lemma re_d_complete:
  assumes "day_text d"
  shows "\<exists>more. re_d d = (d, []) # more"
  using assms
proof (cases rule: day_text_cases)
  case (1 a)
  then show ?thesis by (simp add: re_d_def)
next
  case (2 a b)
  then consider
      (thirties) "a = CHR ''3''" "b \<in> set ''01''"
    | (tens) "a \<in> set ''12''" "is_digit b"
    | (padded) "a = CHR ''0''" "digit_1_9 b"
    | (blank) "a = CHR '' ''" "digit_1_9 b"
    by blast
  then show ?thesis
  proof cases
    case thirties
    then show ?thesis using 2(1) by (simp add: re_d_def)
  next
    case tens
    then have "a \<noteq> CHR ''3''" by auto
    then show ?thesis using tens 2(1) by (simp add: re_d_def)
  next
    case padded
    then show ?thesis using 2(1) by (simp add: re_d_def)
  next
    case blank
    then show ?thesis using 2(1) by (simp add: re_d_def blank_not_digit_1_9)
  qed
qed

lemma regex_match_complete:
  assumes "length y = 4" and "list_all is_digit y" and "month_text m" and "day_text d"
  shows "\<exists>more. regex_match (y @ CHR ''-'' # m @ CHR ''-'' # d) = (y, m, d, []) # more"
proof -
  obtain more where "re_d d = (d, []) # more" using re_d_complete [OF assms(4)] by blast
  then show ?thesis
    by (simp add: regex_match_def then_dash_re_Y [OF assms(1,2)] then_dash_re_m [OF assms(3)])
qed

subsection \<open>Splitting at the dashes\<close>

lemma split_on_nonempty: "split_on c s \<noteq> []"
  by (induction s) (auto split: list.splits)

lemma join_split_on: "join_on c (split_on c s) = s"
proof (induction s)
  case Nil
  then show ?case by simp
next
  case (Cons x xs)
  obtain h t where ht: "split_on c xs = h # t"
    using split_on_nonempty [of c xs] by (cases "split_on c xs") auto
  show ?case using Cons ht by (cases t) auto
qed

lemma split_on_no_sep: "c \<notin> set a \<Longrightarrow> split_on c a = [a]"
  by (induction a) auto

lemma split_on_append: "c \<notin> set a \<Longrightarrow> split_on c (a @ c # b) = a # split_on c b"
  by (induction a) auto

lemma digits_no_dash: "list_all is_digit y \<Longrightarrow> CHR ''-'' \<notin> set y"
  by (auto simp: list_all_iff dest: is_digit_not_dash)

lemma month_text_no_dash: "month_text m \<Longrightarrow> CHR ''-'' \<notin> set m"
  by (simp add: month_text_def digits_no_dash)

lemma day_text_no_dash:
  assumes "day_text d"
  shows "CHR ''-'' \<notin> set d"
  using assms
proof (cases rule: day_text_cases)
  case (1 a)
  then show ?thesis by (auto dest: digit_1_9_is_digit is_digit_not_dash)
next
  case (2 a b)
  then show ?thesis by (auto dest: digit_1_9_is_digit is_digit_not_dash)
qed

lemma split_on_ymd:
  assumes "list_all is_digit y" and "month_text m" and "day_text d"
  shows "split_on CHR ''-'' (y @ CHR ''-'' # m @ CHR ''-'' # d) = [y, m, d]"
  by (simp add: split_on_append split_on_no_sep digits_no_dash [OF assms(1)]
      month_text_no_dash [OF assms(2)] day_text_no_dash [OF assms(3)])

lemma split_on_three:
  "split_on c s = [y, m, d] \<Longrightarrow> s = y @ c # m @ c # d"
  using join_split_on [of c s] by simp

subsection \<open>The parsed values\<close>

lemma decimal_4_bound:
  assumes "length y = 4" and "list_all is_digit y"
  shows "0 \<le> decimal y \<and> decimal y \<le> 9999"
proof -
  from assms(1) obtain a b c d where y: "y = [a, b, c, d]"
    by (cases y; cases "tl y"; cases "tl (tl y)"; cases "tl (tl (tl y))") auto
  have "is_digit a" "is_digit b" "is_digit c" "is_digit d" using assms(2) y by simp_all
  then show ?thesis
    using digit_value_range [of a] digit_value_range [of b] digit_value_range [of c]
      digit_value_range [of d]
    unfolding y decimal_4 by linarith
qed

lemma py_int_year: "length y = 4 \<Longrightarrow> list_all is_digit y \<Longrightarrow> py_int y = decimal y"
  by (cases y) (auto intro: py_int_digits)

lemma py_int_month: "month_text m \<Longrightarrow> py_int m = decimal m"
  by (cases m) (auto simp: month_text_def intro: py_int_digits)

lemma strptime_accepted:
  assumes "length y = 4" and "list_all is_digit y" and "month_text m" and "day_text d"
  shows "strptime (y @ CHR ''-'' # m @ CHR ''-'' # d) =
           (if calendar_date (decimal y) (decimal m) (py_int d)
            then Inr (date (decimal y) (decimal m) (py_int d)) else Inl ValueError)"
proof -
  obtain more where rm: "regex_match (y @ CHR ''-'' # m @ CHR ''-'' # d) = (y, m, d, []) # more"
    using regex_match_complete [OF assms] by blast
  have yb: "decimal y \<le> 9999" using decimal_4_bound [OF assms(1,2)] by simp
  have mb: "1 \<le> decimal m \<and> decimal m \<le> 12" using assms(3) by (simp add: month_text_def)
  show ?thesis
    using yb mb
    by (simp add: strptime_def rm py_int_year [OF assms(1,2)] py_int_month [OF assms(3)]
        check_date_fields_def calendar_date_def date_def)
qed

lemma accepted_ymd_iff:
  "accepted_ymd s \<longleftrightarrow>
     (\<exists>y m d. s = y @ CHR ''-'' # m @ CHR ''-'' # d \<and> length y = 4 \<and> list_all is_digit y \<and>
        month_text m \<and> day_text d \<and> calendar_date (decimal y) (decimal m) (py_int d))"
proof
  assume a: "accepted_ymd s"
  then obtain y m d where sp: "split_on CHR ''-'' s = [y, m, d]"
    by (auto simp: accepted_ymd_def split: list.splits)
  then have "s = y @ CHR ''-'' # m @ CHR ''-'' # d" by (rule split_on_three)
  then show "\<exists>y m d. s = y @ CHR ''-'' # m @ CHR ''-'' # d \<and> length y = 4 \<and> list_all is_digit y \<and>
        month_text m \<and> day_text d \<and> calendar_date (decimal y) (decimal m) (py_int d)"
    using a sp by (auto simp: accepted_ymd_def)
next
  assume "\<exists>y m d. s = y @ CHR ''-'' # m @ CHR ''-'' # d \<and> length y = 4 \<and> list_all is_digit y \<and>
        month_text m \<and> day_text d \<and> calendar_date (decimal y) (decimal m) (py_int d)"
  then obtain y m d where s: "s = y @ CHR ''-'' # m @ CHR ''-'' # d" and
    f: "length y = 4" "list_all is_digit y" "month_text m" "day_text d"
       "calendar_date (decimal y) (decimal m) (py_int d)"
    by blast
  have "split_on CHR ''-'' s = [y, m, d]" unfolding s using f(2,3,4) by (rule split_on_ymd)
  then show "accepted_ymd s" using f by (simp add: accepted_ymd_def)
qed

lemma strptime_Inr_accepted:
  assumes "strptime s = Inr dt"
  shows "accepted_ymd s"
proof -
  from assms obtain y m d more where rm: "regex_match s = (y, m, d, []) # more"
    by (auto simp: strptime_def split: list.splits if_splits)
  then have "(y, m, d, []) \<in> set (regex_match s)" by simp
  then have sh: "s = y @ CHR ''-'' # m @ CHR ''-'' # d" and
    f: "length y = 4" "list_all is_digit y" "month_text m" "day_text d"
    using regex_match_sound [of y m d "[]" s] by simp_all
  have "calendar_date (decimal y) (decimal m) (py_int d)"
    using assms strptime_accepted [OF f] unfolding sh by (simp split: if_splits)
  then show ?thesis unfolding accepted_ymd_iff using sh f by blast
qed

lemma not_accepted_strptime: "\<not> accepted_ymd s \<Longrightarrow> strptime s = Inl ValueError"
  using strptime_Inr_accepted [of s] strptime_error [of s]
  by (cases "strptime s") auto

lemma days_in_month_le_31: "1 \<le> m \<Longrightarrow> m \<le> 12 \<Longrightarrow> days_in_month y m \<le> 31"
proof -
  assume "1 \<le> m" "m \<le> 12"
  then have "m = 1 \<or> m = 2 \<or> m = 3 \<or> m = 4 \<or> m = 5 \<or> m = 6 \<or> m = 7 \<or> m = 8 \<or> m = 9 \<or>
    m = 10 \<or> m = 11 \<or> m = 12" by arith
  then show ?thesis
    by (elim disjE) (simp_all add: days_in_month_def DAYS_IN_MONTH_def)
qed

text \<open>
  C2 (amended). For every string of characters below U+0100 (every ASCII string in
  particular) that is not a four-digit year, a dash, a month from 1
  to 12 written with one or two digits, a dash, and a day written with one or two digits
  (or a blank and one digit) that exists in that month, with a year of at least 1,
  \<open>_validate_date_format\<close> raises \<open>InvalidDateFormat\<close> whose message is exactly the
  offending string followed by " is not a valid date. Invalid date format. Please use the
  format yyyy-mm-dd.". Non-zero-padded forms such as "2022-1-1" are not among the
  rejected strings.
\<close>

theorem rejected_date_raises_InvalidDateFormat:
  assumes "\<not> accepted_ymd s"
  shows "validate_date_format p s =
           Inl (InvalidDateFormat
             (s @ '' is not a valid date. Invalid date format. Please use the format yyyy-mm-dd.''))"
  using not_accepted_strptime [OF assms]
  by (simp add: validate_date_format_def InvalidDateFormat_init_def MESSAGE_ERROR_def)

lemmas eval_accepted =
  accepted_ymd_def month_text_def day_text_def calendar_date_def is_digit_def digit_1_9_def
  decimal_def py_int_def digit_value_def days_in_month_def DAYS_IN_MONTH_def is_leap_def

theorem rejected_date_raises_InvalidDateFormat_witness:
  "\<not> accepted_ymd ''2022-13-01'' \<and> \<not> accepted_ymd ''not-a-date'' \<and> \<not> accepted_ymd ''2022/01/01'' \<and>
   validate_date_format \<lparr>stocks = []\<rparr> ''2022-13-01'' =
     Inl (InvalidDateFormat
       ''2022-13-01 is not a valid date. Invalid date format. Please use the format yyyy-mm-dd.'') \<and>
   validate_date_format \<lparr>stocks = []\<rparr> ''not-a-date'' =
     Inl (InvalidDateFormat
       ''not-a-date is not a valid date. Invalid date format. Please use the format yyyy-mm-dd.'') \<and>
   validate_date_format \<lparr>stocks = []\<rparr> ''2022/01/01'' =
     Inl (InvalidDateFormat
       ''2022/01/01 is not a valid date. Invalid date format. Please use the format yyyy-mm-dd.'')"
proof -
  have a: "\<not> accepted_ymd ''2022-13-01''" by (simp add: eval_accepted)
  have b: "\<not> accepted_ymd ''not-a-date''" by (simp add: eval_accepted)
  have c: "\<not> accepted_ymd ''2022/01/01''" by (simp add: eval_accepted)
  show ?thesis
    using a b c
      rejected_date_raises_InvalidDateFormat [OF a, of "\<lparr>stocks = []\<rparr>"]
      rejected_date_raises_InvalidDateFormat [OF b, of "\<lparr>stocks = []\<rparr>"]
      rejected_date_raises_InvalidDateFormat [OF c, of "\<lparr>stocks = []\<rparr>"]
    by simp
qed

lemmas eval_strptime =
  validate_date_format_def strptime_def regex_match_def then_dash_def re_m_def re_d_def
  re_dash_def is_digit_def digit_1_9_def py_int_def decimal_def digit_value_def
  check_date_fields_def days_in_month_def DAYS_IN_MONTH_def is_leap_def date_def

text \<open>
  C2 as stated fails: "2022-1-1" does not match the strict pattern, and the validator
  returns the date 2022-01-01 for it instead of raising.
\<close>

theorem non_padded_date_is_accepted:
  "\<not> strict_ymd ''2022-1-1'' \<and>
   validate_date_format \<lparr>stocks = []\<rparr> ''2022-1-1'' = Inr (date 2022 1 1)"
  by (simp add: eval_strptime)

text \<open>
  C3. For every string of the strict form YYYY-MM-DD that names a calendar date (year at
  least 1), \<open>_validate_date_format\<close> succeeds and returns the date whose year, month and
  day are the numbers written in the string.
\<close>

theorem valid_date_parsed_as_written:
  assumes "strict_ymd s"
    and "calendar_date (written_year s) (written_month s) (written_day s)"
  shows "validate_date_format p s = Inr (date (written_year s) (written_month s) (written_day s))"
proof -
  from assms(1) obtain y1 y2 y3 y4 m1 m2 d1 d2 where
    s: "s = [y1, y2, y3, y4, CHR ''-'', m1, m2, CHR ''-'', d1, d2]" and
    dy: "is_digit y1" "is_digit y2" "is_digit y3" "is_digit y4" and
    dm: "is_digit m1" "is_digit m2" and dd: "is_digit d1" "is_digit d2"
    by (auto elim!: strict_ymd.elims(2))
  define y where "y = [y1, y2, y3, y4]"
  define m where "m = [m1, m2]"
  define d where "d = [d1, d2]"
  have sh: "s = y @ CHR ''-'' # m @ CHR ''-'' # d" by (simp add: s y_def m_def d_def)
  have wy: "written_year s = decimal y" by (simp add: written_year_def s y_def)
  have wm: "written_month s = decimal m" by (simp add: written_month_def s m_def)
  have wd: "written_day s = decimal d" by (simp add: written_day_def s d_def)
  have cal: "calendar_date (decimal y) (decimal m) (decimal d)"
    using assms(2) by (simp add: wy wm wd)
  have fy: "length y = 4" "list_all is_digit y" using dy by (simp_all add: y_def)
  have fm: "month_text m"
    using dm cal by (simp add: month_text_def m_def calendar_date_def)
  have "decimal d \<le> 31"
    using cal days_in_month_le_31 [of "decimal m" "decimal y"]
    by (simp add: calendar_date_def)
  then have fd: "day_text d"
    using dd cal by (simp add: day_text_def d_def calendar_date_def)
  have pd: "py_int d = decimal d" using dd by (simp add: d_def py_int_digits)
  have "strptime s = Inr (date (decimal y) (decimal m) (decimal d))"
    unfolding sh using strptime_accepted [OF fy fm fd, unfolded pd] cal by simp
  then show ?thesis by (simp add: validate_date_format_def wy wm wd)
qed

theorem valid_date_parsed_as_written_witness:
  "strict_ymd ''2020-02-29'' \<and>
   calendar_date (written_year ''2020-02-29'') (written_month ''2020-02-29'')
     (written_day ''2020-02-29'') \<and>
   validate_date_format \<lparr>stocks = []\<rparr> ''2020-02-29'' = Inr (date 2020 2 29)"
proof -
  have w: "written_year ''2020-02-29'' = 2020" "written_month ''2020-02-29'' = 2"
    "written_day ''2020-02-29'' = 29"
    by (simp_all add: written_year_def written_month_def written_day_def decimal_def
        digit_value_def)
  have a: "strict_ymd ''2020-02-29''" by (simp add: is_digit_def)
  have b: "calendar_date (written_year ''2020-02-29'') (written_month ''2020-02-29'')
     (written_day ''2020-02-29'')"
    unfolding w by (simp add: calendar_date_def days_in_month_def is_leap_def)
  show ?thesis
    using a b valid_date_parsed_as_written [OF a b, of "\<lparr>stocks = []\<rparr>"]
    by (simp add: w)
qed

section \<open>Day counts\<close>

lemma sub_days_dates: "is_date a \<Longrightarrow> is_date b \<Longrightarrow> sub_days a b = toordinal a - toordinal b"
  by (simp add: sub_days_def is_date_def seconds_of_day_def)

text \<open>
  C9. For every pair of dates \<open>a\<close> and \<open>b\<close>, \<open>_calculate_days_difference(a, b)\<close> equals
  \<open>_calculate_days_difference(b, a)\<close> and is non-negative, and
  \<open>_calculate_years_difference\<close> is symmetric as well. A date is a \<open>datetime\<close> at midnight,
  which is what the validator returns.
\<close>

theorem days_difference_symmetric:
  assumes "is_date a" and "is_date b"
  shows "calculate_days_difference p a b = calculate_days_difference p b a \<and>
         0 \<le> calculate_days_difference p a b \<and>
         calculate_years_difference p a b = calculate_years_difference p b a"
proof -
  have "calculate_days_difference p a b = \<bar>toordinal b - toordinal a\<bar>"
    using assms by (simp add: calculate_days_difference_def sub_days_dates)
  moreover have "calculate_days_difference p b a = \<bar>toordinal a - toordinal b\<bar>"
    using assms by (simp add: calculate_days_difference_def sub_days_dates)
  ultimately have "calculate_days_difference p a b = calculate_days_difference p b a"
    by linarith
  then show ?thesis
    by (simp add: calculate_years_difference_def calculate_days_difference_def)
qed

theorem days_difference_symmetric_witness:
  "is_date (date 2020 1 1) \<and> is_date (date 2022 1 1) \<and>
   calculate_days_difference \<lparr>stocks = []\<rparr> (date 2020 1 1) (date 2022 1 1) = 731 \<and>
   calculate_days_difference \<lparr>stocks = []\<rparr> (date 2022 1 1) (date 2020 1 1) = 731 \<and>
   calculate_years_difference \<lparr>stocks = []\<rparr> (date 2022 1 1) (date 2020 1 1) = 731 / 365"
proof -
  have d: "is_date (date 2020 1 1)" "is_date (date 2022 1 1)"
    by (simp_all add: is_date_def date_def)
  have v: "calculate_days_difference \<lparr>stocks = []\<rparr> (date 2020 1 1) (date 2022 1 1) = 731"
    by (simp add: calculate_days_difference_def sub_days_def toordinal_def ymd2ord_def
        days_before_year_def days_before_month_def DAYS_BEFORE_MONTH_def is_leap_def
        seconds_of_day_def date_def)
  show ?thesis
    using days_difference_symmetric [OF d, of "\<lparr>stocks = []\<rparr>"] d v
    by (simp add: calculate_years_difference_def)
qed

text \<open>
  For \<open>datetime\<close> values with different times of day the floor in \<open>timedelta.days\<close>
  breaks the symmetry; the script never builds such values.
\<close>

lemma days_difference_of_datetimes_not_symmetric:
  "calculate_days_difference p ((date 2022 1 1)\<lparr>hour := 12\<rparr>) (date 2022 1 2) = 0 \<and>
   calculate_days_difference p (date 2022 1 2) ((date 2022 1 1)\<lparr>hour := 12\<rparr>) = 1"
  by (simp add: calculate_days_difference_def sub_days_def toordinal_def ymd2ord_def
      days_before_year_def days_before_month_def DAYS_BEFORE_MONTH_def is_leap_def
      seconds_of_day_def date_def)

section \<open>Reporting operations\<close>

text \<open>
  C4. When the start or the end date string is invalid, both reporting operations raise
  the \<open>InvalidDateFormat\<close> of the first invalid string and leave the environment as it
  was: no draw is taken from the generator (no valuation is computed) and no line is
  printed.
\<close>

theorem invalid_date_propagates:
  assumes "isl (validate_date_format p s) \<or> isl (validate_date_format p t)"
  shows "calculate_profit_between p s t w =
           (Inl (InvalidDateFormat_init (if isl (validate_date_format p s) then s else t)), p, w) \<and>
         calculate_profit_annualized p s t w =
           (Inl (InvalidDateFormat_init (if isl (validate_date_format p s) then s else t)), p, w)"
proof (cases "validate_date_format p s")
  case (Inl e)
  then have "e = InvalidDateFormat_init s" by (rule validate_error)
  then show ?thesis using Inl
    by (simp add: calculate_profit_between_def calculate_profit_annualized_def)
next
  case (Inr d)
  then obtain e where e: "validate_date_format p t = Inl e"
    using assms by (cases "validate_date_format p t") simp_all
  then have "e = InvalidDateFormat_init t" by (rule validate_error)
  then show ?thesis using Inr e
    by (simp add: calculate_profit_between_def calculate_profit_annualized_def)
qed

lemma constructed_nonempty:
  "fst (Portfolio_init w0) = Inr p \<Longrightarrow> stocks p \<noteq> []"
  using Portfolio_init_inv [of w0] by (auto simp: portfolio_inv_def)

lemma profit_percentage_ok:
  "v \<noteq> 0 \<Longrightarrow> calculate_profit_percentage p v f = Inr ((f - v) / v * 100)"
  by (simp add: calculate_profit_percentage_def truediv_def)

text \<open>
  C10. For every constructed portfolio the value returned by \<open>_get_portfolio_value\<close> is
  strictly positive, so the divisions by the initial value in
  \<open>_calculate_profit_percentage\<close> and \<open>_calculate_annualized_return\<close> do not raise
  \<open>ZeroDivisionError\<close>, and \<open>calculate_profit_between\<close> never raises it.
\<close>

theorem portfolio_value_positive:
  assumes "fst (Portfolio_init w0) = Inr p"
  shows "0 < fst (get_portfolio_value p w) \<and>
         calculate_profit_percentage p (fst (get_portfolio_value p w)) f =
           Inr ((f - fst (get_portfolio_value p w)) / fst (get_portfolio_value p w) * 100) \<and>
         truediv f (fst (get_portfolio_value p w)) = Inr (f / fst (get_portfolio_value p w)) \<and>
         fst (calculate_profit_between p s t w) \<noteq> Inl ZeroDivisionError"
proof -
  have ne: "stocks p \<noteq> []" using assms by (rule constructed_nonempty)
  have pos: "0 < fst (get_portfolio_value p w)"
    using get_portfolio_value_lower [OF ne, of w] by linarith
  have nz: "fst (get_portfolio_value p w) \<noteq> 0" using pos by simp
  have nozd: "fst (calculate_profit_between p s t w) \<noteq> Inl ZeroDivisionError"
  proof (cases "validate_date_format p s")
    case (Inl e)
    then show ?thesis using validate_error [OF Inl]
      by (simp add: calculate_profit_between_def InvalidDateFormat_init_def)
  next
    case a: (Inr d)
    show ?thesis
    proof (cases "validate_date_format p t")
      case (Inl e)
      then show ?thesis using a validate_error [OF Inl]
        by (simp add: calculate_profit_between_def InvalidDateFormat_init_def)
    next
      case (Inr d')
      then show ?thesis using a nz
        by (simp add: calculate_profit_between_def split_beta profit_percentage_ok)
    qed
  qed
  show ?thesis using pos nz nozd by (simp add: profit_percentage_ok truediv_def)
qed


section \<open>The model on concrete inputs\<close>

text \<open>Evaluation of the model on concrete inputs.\<close>

lemmas eval_world =
  get_portfolio_value_def get_price_def generate_random_price_def randint_def randbelow_def
  draws2_def MSFT_only_def


lemma Portfolio_init_zero: "fst (Portfolio_init (draws2 0 0)) = Inr MSFT_only"
  by (simp add: Portfolio_init_def generate_random_stocks_def sample_def randint_def
      randbelow_def CUSTOM_RANDOM_STOCKS_def draws2_def MSFT_only_def)

lemma validate_examples:
  "validate_date_format p ''2022-01-01'' = Inr (date 2022 1 1)"
  "validate_date_format p ''2020-01-01'' = Inr (date 2020 1 1)"
  "validate_date_format p ''2021-01-01'' = Inr (date 2021 1 1)"
  "validate_date_format p ''2022-01-02'' = Inr (date 2022 1 2)"
  by (simp_all add: eval_strptime)

theorem invalid_date_propagates_witness:
  "isl (validate_date_format MSFT_only ''2022-13-01'') \<and>
   calculate_profit_between MSFT_only ''2022-13-01'' ''2020-01-01'' (draws2 0 0) =
     (Inl (InvalidDateFormat
        ''2022-13-01 is not a valid date. Invalid date format. Please use the format yyyy-mm-dd.''),
      MSFT_only, draws2 0 0) \<and>
   calculate_profit_annualized MSFT_only ''2022-13-01'' ''2020-01-01'' (draws2 0 0) =
     (Inl (InvalidDateFormat
        ''2022-13-01 is not a valid date. Invalid date format. Please use the format yyyy-mm-dd.''),
      MSFT_only, draws2 0 0)"
proof -
  have a: "isl (validate_date_format MSFT_only ''2022-13-01'')"
    by (simp add: eval_strptime)
  then have b: "isl (validate_date_format MSFT_only ''2022-13-01'') \<or>
      isl (validate_date_format MSFT_only ''2020-01-01'')" by simp
  show ?thesis
    using a invalid_date_propagates [OF b, of "draws2 0 0"]
    by (simp add: InvalidDateFormat_init_def MESSAGE_ERROR_def)
qed

theorem portfolio_value_positive_witness:
  "fst (Portfolio_init (draws2 0 0)) = Inr MSFT_only \<and>
   fst (get_portfolio_value MSFT_only (draws2 99 49)) = 201 / 2 \<and>
   calculate_profit_percentage MSFT_only (201 / 2) (101 / 2) = Inr (- 10000 / 201) \<and>
   truediv (101 / 2) (201 / 2) = Inr (101 / 201) \<and>
   fst (calculate_profit_between MSFT_only ''2022-01-01'' ''2020-01-01'' (draws2 99 49)) \<noteq>
     Inl ZeroDivisionError"
proof -
  have v: "fst (get_portfolio_value MSFT_only (draws2 99 49)) = 201 / 2"
    by (simp add: eval_world)
  show ?thesis
    using Portfolio_init_zero
      portfolio_value_positive [OF Portfolio_init_zero, of "draws2 99 49" "101 / 2"
        "''2022-01-01''" "''2020-01-01''", unfolded v]
    by (simp add: v)
qed


section \<open>Construction invariant\<close>

lemma reporting_keeps_portfolio:
  "fst (snd (calculate_profit_between p s t v)) = p \<and>
   fst (snd (calculate_profit_annualized p s t v)) = p"
  by (simp add: calculate_profit_between_def calculate_profit_annualized_def split_beta
      split: sum.splits)

text \<open>
  C8. Every constructed portfolio has between 1 and 8 stocks, every ticker is one of the
  8 tickers of the catalog, the tickers are pairwise distinct, and both reporting
  operations leave the portfolio as it was.
\<close>

theorem portfolio_construction_invariant:
  "\<exists>p w'. Portfolio_init w = (Inr p, w') \<and>
     1 \<le> length (stocks p) \<and> length (stocks p) \<le> 8 \<and>
     set (map name (stocks p)) \<subseteq> set CUSTOM_RANDOM_STOCKS \<and>
     length CUSTOM_RANDOM_STOCKS = 8 \<and>
     distinct (map name (stocks p)) \<and>
     (\<forall>s t v. fst (snd (calculate_profit_between p s t v)) = p \<and>
              fst (snd (calculate_profit_annualized p s t v)) = p)"
proof -
  obtain p w' where "Portfolio_init w = (Inr p, w')" and "portfolio_inv p"
    using Portfolio_init_inv [of w] by blast
  then show ?thesis
    using reporting_keeps_portfolio [of p]
    by (auto simp: portfolio_inv_def catalog_length)
qed

section \<open>Equal dates\<close>

lemma years_difference_same_day: "calculate_years_difference p d d = 0"
  by (simp add: calculate_years_difference_def calculate_days_difference_def sub_days_def)

lemma annualized_return_zero_years:
  "initial \<noteq> 0 \<Longrightarrow> calculate_annualized_return p initial final 0 = Inl ZeroDivisionError"
  by (simp add: calculate_annualized_return_def truediv_def)

text \<open>
  C7. When \<open>calculate_profit_annualized\<close> is called with a valid date string as both
  start and end, the elapsed years are 0, the annualized-return computation raises
  \<open>ZeroDivisionError\<close>, the error reaches the caller, and nothing is printed.
\<close>

theorem same_date_raises_zero_division:
  assumes "fst (Portfolio_init w0) = Inr p"
    and "validate_date_format p s = Inr d"
  shows "calculate_years_difference p d d = 0 \<and>
         calculate_annualized_return p (fst (get_portfolio_value p w))
           (fst (get_portfolio_value p (snd (get_portfolio_value p w))))
           (calculate_years_difference p d d) = Inl ZeroDivisionError \<and>
         calculate_profit_annualized p s s w =
           (Inl ZeroDivisionError, p, snd (get_portfolio_value p (snd (get_portfolio_value p w)))) \<and>
         stdout (snd (snd (calculate_profit_annualized p s s w))) = stdout w"
proof -
  have ne: "stocks p \<noteq> []" using assms(1) by (rule constructed_nonempty)
  have nz: "fst (get_portfolio_value p w) \<noteq> 0"
    using get_portfolio_value_lower [OF ne, of w] by linarith
  have ar: "calculate_annualized_return p (fst (get_portfolio_value p w))
           (fst (get_portfolio_value p (snd (get_portfolio_value p w)))) 0 = Inl ZeroDivisionError"
    using nz by (rule annualized_return_zero_years)
  have eq: "calculate_profit_annualized p s s w =
           (Inl ZeroDivisionError, p, snd (get_portfolio_value p (snd (get_portfolio_value p w))))"
    using assms(2) nz
    by (simp add: calculate_profit_annualized_def split_beta profit_percentage_ok
        years_difference_same_day ar)
  have out: "stdout (snd (get_portfolio_value p (snd (get_portfolio_value p w)))) = stdout w"
    by (simp add: get_portfolio_value_world)
  show ?thesis unfolding eq years_difference_same_day
    using ar out by simp
qed

theorem same_date_raises_zero_division_witness:
  "fst (Portfolio_init (draws2 0 0)) = Inr MSFT_only \<and>
   validate_date_format MSFT_only ''2022-01-01'' = Inr (date 2022 1 1) \<and>
   calculate_years_difference MSFT_only (date 2022 1 1) (date 2022 1 1) = 0 \<and>
   fst (calculate_profit_annualized MSFT_only ''2022-01-01'' ''2022-01-01'' (draws2 99 49)) =
     Inl ZeroDivisionError \<and>
   stdout (snd (snd (calculate_profit_annualized MSFT_only ''2022-01-01'' ''2022-01-01''
     (draws2 99 49)))) = []"
proof -
  have so: "stdout (draws2 99 49) = []" by (simp add: draws2_def)
  show ?thesis
    using Portfolio_init_zero validate_examples(1) [of MSFT_only]
      same_date_raises_zero_division [OF Portfolio_init_zero validate_examples(1) [of MSFT_only],
        of "draws2 99 49"]
    by (simp add: so get_portfolio_value_world)
qed

section \<open>Annualized report\<close>

subsection \<open>Different dates are at least one day apart\<close>












lemma float_pow_positive:
  assumes "0 < x" and "y \<noteq> 0"
  shows "float_pow x y = (if x powr y > DBL_MAX then Inl OverflowError else Inr (x powr y))"
proof -
  have "\<bar>x\<bar> powr y = x powr y" using assms(1) by simp
  moreover have "\<bar>x powr y\<bar> = x powr y" by simp
  ultimately show ?thesis using assms by (simp add: float_pow_def Let_def)
qed


lemma annualized_return_not_complex:
  assumes "0 < initial" and "0 < final"
  shows "calculate_annualized_return p initial final years \<noteq> Inl ComplexResult"
proof (cases "years = 0")
  case True
  then show ?thesis using assms by (simp add: calculate_annualized_return_def truediv_def)
next
  case False
  have q: "0 < final / initial" using assms by simp
  have e: "1 / years \<noteq> 0" using False by simp
  show ?thesis
    using assms False float_pow_positive [OF q e]
    by (simp add: calculate_annualized_return_def truediv_def)
qed








subsection \<open>Distinct strings of the strict form denote different dates\<close>

text \<open>
  The annualized report is stated for parsed dates that differ. For strings of the
  strict form that follows from the strings being different.
\<close>

lemma digit_value_inj:
  assumes "is_digit a" and "is_digit b" and "digit_value a = digit_value b"
  shows "a = b"
proof -
  have A: "a = CHR ''0'' \<or> a = CHR ''1'' \<or> a = CHR ''2'' \<or> a = CHR ''3'' \<or> a = CHR ''4'' \<or>
     a = CHR ''5'' \<or> a = CHR ''6'' \<or> a = CHR ''7'' \<or> a = CHR ''8'' \<or> a = CHR ''9''"
    and B: "b = CHR ''0'' \<or> b = CHR ''1'' \<or> b = CHR ''2'' \<or> b = CHR ''3'' \<or> b = CHR ''4'' \<or>
     b = CHR ''5'' \<or> b = CHR ''6'' \<or> b = CHR ''7'' \<or> b = CHR ''8'' \<or> b = CHR ''9''"
    using assms(1,2) by (simp_all add: is_digit_cases)
  from A B assms(3) show ?thesis
    by (elim disjE) (simp_all add: digit_value_def)
qed

lemma decimal_snoc: "decimal (xs @ [c]) = 10 * decimal xs + digit_value c"
  by (simp add: decimal_def)

lemma decimal_inj:
  assumes "list_all is_digit xs" and "list_all is_digit ys" and "length xs = length ys"
    and "decimal xs = decimal ys"
  shows "xs = ys"
  using assms
proof (induction xs arbitrary: ys rule: rev_induct)
  case Nil
  then show ?case by simp
next
  case (snoc a xs)
  from snoc.prems(3) obtain ys' b where ys: "ys = ys' @ [b]"
    by (cases ys rule: rev_cases) simp_all
  have da: "is_digit a" and db: "is_digit b" using snoc.prems(1,2) ys by simp_all
  have ra: "0 \<le> digit_value a" "digit_value a < 10"
    using digit_value_range [OF da] by simp_all
  have rb: "0 \<le> digit_value b" "digit_value b < 10"
    using digit_value_range [OF db] by simp_all
  have e: "10 * decimal xs + digit_value a = 10 * decimal ys' + digit_value b"
    using snoc.prems(4) unfolding ys decimal_snoc .
  have "(10 * decimal xs + digit_value a) div 10 = decimal xs"
    by (rule int_div_pos_eq [of _ 10 _ "digit_value a"]) (use ra in simp_all)
  moreover have "(10 * decimal ys' + digit_value b) div 10 = decimal ys'"
    by (rule int_div_pos_eq [of _ 10 _ "digit_value b"]) (use rb in simp_all)
  ultimately have x: "decimal xs = decimal ys'" using e by simp
  then have "digit_value a = digit_value b" using e by simp
  then have ab: "a = b" using da db by (intro digit_value_inj)
  have "xs = ys'"
    using snoc.IH [of ys'] snoc.prems(1,2,3) x unfolding ys by simp
  then show ?case using ab ys by simp
qed

lemma strict_ymd_parts:
  assumes "strict_ymd s"
  obtains y m d where "s = y @ CHR ''-'' # m @ CHR ''-'' # d"
    and "length y = 4" and "list_all is_digit y"
    and "length m = 2" and "list_all is_digit m"
    and "length d = 2" and "list_all is_digit d"
    and "written_year s = decimal y" and "written_month s = decimal m"
    and "written_day s = decimal d"
proof -
  from assms obtain y1 y2 y3 y4 m1 m2 d1 d2 where
    s: "s = [y1, y2, y3, y4, CHR ''-'', m1, m2, CHR ''-'', d1, d2]" and
    dy: "is_digit y1" "is_digit y2" "is_digit y3" "is_digit y4" and
    dm: "is_digit m1" "is_digit m2" and dd: "is_digit d1" "is_digit d2"
    by (auto elim!: strict_ymd.elims(2))
  show thesis
  proof (rule that [of "[y1, y2, y3, y4]" "[m1, m2]" "[d1, d2]"])
    show "s = [y1, y2, y3, y4] @ CHR ''-'' # [m1, m2] @ CHR ''-'' # [d1, d2]" by (simp add: s)
    show "written_year s = decimal [y1, y2, y3, y4]" by (simp add: written_year_def s)
    show "written_month s = decimal [m1, m2]" by (simp add: written_month_def s)
    show "written_day s = decimal [d1, d2]" by (simp add: written_day_def s)
  qed (use dy dm dd in simp_all)
qed

lemma strict_written_inj:
  assumes "strict_ymd s" and "strict_ymd t"
    and "written_year s = written_year t"
    and "written_month s = written_month t"
    and "written_day s = written_day t"
  shows "s = t"
proof -
  from assms(1) obtain y m d where s: "s = y @ CHR ''-'' # m @ CHR ''-'' # d"
    and sy: "length y = 4" "list_all is_digit y"
    and sm: "length m = 2" "list_all is_digit m"
    and sd: "length d = 2" "list_all is_digit d"
    and sw: "written_year s = decimal y" "written_month s = decimal m" "written_day s = decimal d"
    by (rule strict_ymd_parts)
  from assms(2) obtain y' m' d' where t: "t = y' @ CHR ''-'' # m' @ CHR ''-'' # d'"
    and ty: "length y' = 4" "list_all is_digit y'"
    and tm: "length m' = 2" "list_all is_digit m'"
    and td: "length d' = 2" "list_all is_digit d'"
    and tw: "written_year t = decimal y'" "written_month t = decimal m'" "written_day t = decimal d'"
    by (rule strict_ymd_parts)
  have "y = y'" using sy ty assms(3) sw(1) tw(1) by (intro decimal_inj) simp_all
  moreover have "m = m'" using sm tm assms(4) sw(2) tw(2) by (intro decimal_inj) simp_all
  moreover have "d = d'" using sd td assms(5) sw(3) tw(3) by (intro decimal_inj) simp_all
  ultimately show ?thesis by (simp add: s t)
qed

lemma strict_validated_date:
  assumes "strict_ymd s" and "validate_date_format p s = Inr dt"
  shows "dt = date (written_year s) (written_month s) (written_day s)"
proof -
  from assms(1) obtain y m d where s: "s = y @ CHR ''-'' # m @ CHR ''-'' # d"
    and sy: "length y = 4" "list_all is_digit y"
    and sm: "length m = 2" "list_all is_digit m"
    and sd: "length d = 2" "list_all is_digit d"
    and sw: "written_year s = decimal y" "written_month s = decimal m" "written_day s = decimal d"
    by (rule strict_ymd_parts)
  have st: "strptime s = Inr dt" using assms(2) by (simp add: validate_Inr)
  then have "accepted_ymd s" by (rule strptime_Inr_accepted)
  moreover have "split_on CHR ''-'' s = [y, m, d]"
    unfolding s
    by (simp add: split_on_append split_on_no_sep digits_no_dash [OF sy(2)]
        digits_no_dash [OF sm(2)] digits_no_dash [OF sd(2)])
  ultimately have mt: "month_text m" and dt: "day_text d"
    and cal: "calendar_date (decimal y) (decimal m) (py_int d)"
    by (simp_all add: accepted_ymd_def)
  have pd: "py_int d = decimal d"
    using sd by (cases d) (auto intro: py_int_digits)
  have "strptime s = Inr (date (decimal y) (decimal m) (decimal d))"
    unfolding s using strptime_accepted [OF sy mt dt] cal by (simp add: pd)
  then show ?thesis using st by (simp add: sw)
qed

lemma distinct_strict_strings_different_dates:
  assumes "strict_ymd s" and "strict_ymd t" and "s \<noteq> t"
    and "validate_date_format p s = Inr d1" and "validate_date_format p t = Inr d2"
  shows "d1 \<noteq> d2"
proof
  assume "d1 = d2"
  then have "date (written_year s) (written_month s) (written_day s) =
      date (written_year t) (written_month t) (written_day t)"
    using strict_validated_date [OF assms(1,4)] strict_validated_date [OF assms(2,5)] by simp
  then have "written_year s = written_year t \<and> written_month s = written_month t \<and>
      written_day s = written_day t"
    by (simp add: date_def)
  then have "s = t" using assms(1,2) by (intro strict_written_inj) simp_all
  then show False using assms(3) by simp
qed

text \<open>
  Two different strings can denote the same date once the padding is dropped; the years
  are then 0 and the division raises, as for equal strings.
\<close>

lemma same_date_different_strings:
  "validate_date_format MSFT_only ''2022-1-1'' = Inr (date 2022 1 1) \<and>
   validate_date_format MSFT_only ''2022-01-01'' = Inr (date 2022 1 1) \<and>
   fst (calculate_profit_annualized MSFT_only ''2022-1-1'' ''2022-01-01'' (draws2 99 49)) =
     Inl ZeroDivisionError"
proof -
  have a: "validate_date_format MSFT_only ''2022-1-1'' = Inr (date 2022 1 1)"
    by (simp add: eval_strptime)
  have i: "fst (get_portfolio_value MSFT_only (draws2 99 49)) = 201 / 2"
    by (simp add: eval_world)
  have pp: "calculate_profit_percentage MSFT_only (201 / 2)
      (fst (get_portfolio_value MSFT_only (snd (get_portfolio_value MSFT_only (draws2 99 49))))) =
      Inr ((fst (get_portfolio_value MSFT_only (snd (get_portfolio_value MSFT_only (draws2 99 49))))
        - 201 / 2) / (201 / 2) * 100)"
    by (rule profit_percentage_ok) simp
  have ar: "calculate_annualized_return MSFT_only (201 / 2)
      (fst (get_portfolio_value MSFT_only (snd (get_portfolio_value MSFT_only (draws2 99 49))))) 0
      = Inl ZeroDivisionError"
    by (rule annualized_return_zero_years) simp
  show ?thesis
    by (simp add: calculate_profit_annualized_def a validate_examples split_beta Let_def i pp ar
        years_difference_same_day)
qed


section \<open>Binary64: rounding and bounds\<close>


lemma powi_powr: "(2::real) powi k = 2 powr real_of_int k"
  by (simp add: powr_real_of_int')

lemma ilog2_eqI: "0 < x \<Longrightarrow> 2 powi e \<le> x \<Longrightarrow> x < 2 powi (e + 1) \<Longrightarrow> ilog2 x = e"
proof -
  assume x: "0 < x" and l: "2 powi e \<le> x" and u: "x < 2 powi (e + 1)"
  have "2 powr real_of_int e \<le> x" using l by (simp only: powi_powr)
  moreover have "x < 2 powr (real_of_int e + 1)"
    using u by (simp only: powi_powr of_int_add of_int_1)
  ultimately have "\<lfloor>log 2 x\<rfloor> = e"
    using x by (subst floor_log_eq_powr_iff) simp_all
  then show ?thesis by (simp add: ilog2_def)
qed

lemma ilog2_bounds:
  assumes "0 < x"
  shows "2 powi ilog2 x \<le> x \<and> x < 2 powi (ilog2 x + 1)"
proof -
  have "\<lfloor>log 2 x\<rfloor> = ilog2 x" by (simp add: ilog2_def)
  then have "2 powr real_of_int (ilog2 x) \<le> x \<and> x < 2 powr (real_of_int (ilog2 x) + 1)"
    using assms by (subst (asm) floor_log_eq_powr_iff) simp_all
  then show ?thesis by (simp only: powi_powr of_int_add of_int_1)
qed

lemma ilog2_mono: "0 < x \<Longrightarrow> x \<le> y \<Longrightarrow> ilog2 x \<le> ilog2 y"
  unfolding ilog2_def by (intro floor_mono) (simp add: log_le_cancel_iff)

lemma ilog2_powi: "ilog2 (2 powi e) = e"
  by (rule ilog2_eqI) (simp_all add: power_int_add)

subsection \<open>Rounding to an integer, ties to even\<close>

lemma round_half_even_of_int: "round_half_even (real_of_int n) = n"
  by (simp add: round_half_even_def)

lemma round_half_even_near: "\<bar>real_of_int (round_half_even q) - q\<bar> \<le> 1 / 2"
  unfolding round_half_even_def Let_def by (auto simp: abs_if) linarith+

lemma round_half_even_ge: "real_of_int m \<le> q \<Longrightarrow> m \<le> round_half_even q"
proof -
  assume "real_of_int m \<le> q"
  then have "m \<le> \<lfloor>q\<rfloor>" by (simp add: le_floor_iff)
  then show ?thesis unfolding round_half_even_def Let_def by auto
qed

lemma round_half_even_le: "q \<le> real_of_int m \<Longrightarrow> round_half_even q \<le> m"
proof -
  assume a: "q \<le> real_of_int m"
  show ?thesis
  proof (cases "q = real_of_int m")
    case True
    then show ?thesis by (simp add: round_half_even_of_int)
  next
    case False
    then have "q < real_of_int m" using a by simp
    then have "\<lfloor>q\<rfloor> < m" by (simp add: floor_less_iff)
    then show ?thesis unfolding round_half_even_def Let_def by auto
  qed
qed

lemma round_half_even_minus: "round_half_even (- q) = - round_half_even q"
proof (cases "q = real_of_int \<lfloor>q\<rfloor>")
  case True
  then obtain n where "q = real_of_int n" by metis
  then show ?thesis by (simp add: round_half_even_of_int flip: of_int_minus)
next
  case False
  then have f: "\<lfloor>- q\<rfloor> = - \<lfloor>q\<rfloor> - 1"
    by (simp add: floor_minus ceiling_altdef)
  show ?thesis
    unfolding round_half_even_def Let_def f using False
    by (auto simp: algebra_simps) 
qed


subsection \<open>Rounding to a double\<close>

lemma powi_pos: "0 < (2::real) powi k"
  by (simp add: power_int_def)

lemma ulp_exponent_minus: "ulp_exponent (- x) = ulp_exponent x"
  by (simp add: ulp_exponent_def)

lemma rnd_minus: "rnd (- x) = - rnd x"
  by (simp add: rnd_def ulp_exponent_minus round_half_even_minus)

lemma rnd_zero: "rnd 0 = 0"
  by (simp add: rnd_def)

lemma rnd_nonneg: "0 \<le> x \<Longrightarrow> 0 \<le> rnd x"
proof -
  assume x: "0 \<le> x"
  have "0 \<le> x / 2 powi ulp_exponent x" using x powi_pos [of "ulp_exponent x"] by simp
  then have "0 \<le> round_half_even (x / 2 powi ulp_exponent x)"
    using round_half_even_ge [of 0 "x / 2 powi ulp_exponent x"] by simp
  then show ?thesis using powi_pos [of "ulp_exponent x"] by (simp add: rnd_def)
qed

lemma rnd_lower:
  assumes "2 powi e \<le> x" and "- 1022 \<le> e"
  shows "2 powi e \<le> rnd x"
proof -
  have xp: "0 < x" using assms(1) powi_pos [of e] by linarith
  define E where "E = ilog2 x"
  have eE: "e \<le> E"
    using ilog2_mono [of "2 powi e" x] assms(1) powi_pos [of e] by (simp add: ilog2_powi E_def)
  have k: "ulp_exponent x = E - 52"
    using eE assms(2) xp by (simp add: ulp_exponent_def E_def)
  have "2 powi E \<le> x" using ilog2_bounds [OF xp] by (simp add: E_def)
  then have "2 powi E / 2 powi (E - 52) \<le> x / 2 powi (E - 52)"
    using powi_pos [of "E - 52"] by (simp add: divide_right_mono)
  moreover have "(2::real) powi E / 2 powi (E - 52) = real_of_int (2 ^ 52)"
    by (simp add: power_int_diff)
  ultimately have "(2::int) ^ 52 \<le> round_half_even (x / 2 powi (E - 52))"
    by (intro round_half_even_ge) simp
  then have "real_of_int (2 ^ 52) \<le> real_of_int (round_half_even (x / 2 powi (E - 52)))"
    by (simp only: of_int_le_iff)
  then have "real_of_int (2 ^ 52) * 2 powi (E - 52) \<le> rnd x"
    using xp powi_pos [of "E - 52"] by (simp add: rnd_def k)
  moreover have "real_of_int (2 ^ 52) * 2 powi (E - 52) = 2 powi E"
    by (simp add: power_int_diff)
  moreover have "(2::real) powi e \<le> 2 powi E"
    using eE by (intro power_int_increasing) simp_all
  ultimately show ?thesis by linarith
qed

lemma rnd_le_int:
  assumes "0 < x" and "x \<le> real_of_int M" and "M < 2 ^ 53"
  shows "rnd x \<le> real_of_int M"
proof -
  define k where "k = ulp_exponent x"
  have "real_of_int M < real_of_int (2 ^ 53)" using assms(3) by (simp only: of_int_less_iff)
  then have x53: "x < 2 powi 53" using assms(2) by simp
  have "ilog2 x < 53"
  proof (rule ccontr)
    assume "\<not> ilog2 x < 53"
    then have "(2::real) powi 53 \<le> 2 powi ilog2 x" by (intro power_int_increasing) simp_all
    then show False using ilog2_bounds [OF assms(1)] x53 by linarith
  qed
  then have k0: "k \<le> 0" using assms(1) by (simp add: k_def ulp_exponent_def)
  have d: "real_of_int M / 2 powi k = real_of_int (M * 2 ^ nat (- k))"
    using k0 by (simp add: power_int_def field_simps)
  have "x / 2 powi k \<le> real_of_int M / 2 powi k"
    using assms(2) powi_pos [of k] by (simp add: divide_right_mono)
  then have "round_half_even (x / 2 powi k) \<le> M * 2 ^ nat (- k)"
    unfolding d by (rule round_half_even_le)
  then have "real_of_int (round_half_even (x / 2 powi k)) \<le> real_of_int (M * 2 ^ nat (- k))"
    by (simp only: of_int_le_iff)
  then have "real_of_int (round_half_even (x / 2 powi k)) * 2 powi k \<le> real_of_int M / 2 powi k * 2 powi k"
    unfolding d using powi_pos [of k] by (simp add: mult_right_mono)
  then show ?thesis using assms(1) powi_pos [of k] by (simp add: rnd_def k_def)
qed


lemma rnd_ge_int:
  assumes "0 < x" and "real_of_int M \<le> x" and "x < 2 ^ 53"
  shows "real_of_int M \<le> rnd x"
proof -
  define k where "k = ulp_exponent x"
  have x53: "x < 2 powi 53" using assms(3) by simp
  have "ilog2 x < 53"
  proof (rule ccontr)
    assume "\<not> ilog2 x < 53"
    then have "(2::real) powi 53 \<le> 2 powi ilog2 x" by (intro power_int_increasing) simp_all
    then show False using ilog2_bounds [OF assms(1)] x53 by linarith
  qed
  then have k0: "k \<le> 0" using assms(1) by (simp add: k_def ulp_exponent_def)
  have d: "real_of_int M / 2 powi k = real_of_int (M * 2 ^ nat (- k))"
    using k0 by (simp add: power_int_def field_simps)
  have "real_of_int M / 2 powi k \<le> x / 2 powi k"
    using assms(2) powi_pos [of k] by (simp add: divide_right_mono)
  then have "M * 2 ^ nat (- k) \<le> round_half_even (x / 2 powi k)"
    unfolding d by (rule round_half_even_ge)
  then have "real_of_int (M * 2 ^ nat (- k)) \<le> real_of_int (round_half_even (x / 2 powi k))"
    by (simp only: of_int_le_iff)
  then have "real_of_int M / 2 powi k * 2 powi k \<le>
      real_of_int (round_half_even (x / 2 powi k)) * 2 powi k"
    unfolding d using powi_pos [of k] by (simp add: mult_right_mono)
  then show ?thesis using assms(1) powi_pos [of k] by (simp add: rnd_def k_def)
qed

lemma rnd_abs_le_int:
  assumes "\<bar>x\<bar> \<le> real_of_int M" and "M < 2 ^ 53"
  shows "\<bar>rnd x\<bar> \<le> real_of_int M"
proof -
  have M0: "0 \<le> real_of_int M" using assms(1) by linarith
  consider (pos) "0 < x" | (zero) "x = 0" | (neg) "x < 0" by linarith
  then show ?thesis
  proof cases
    case pos
    then have "rnd x \<le> real_of_int M" using assms by (intro rnd_le_int) simp_all
    moreover have "0 \<le> rnd x" using pos by (intro rnd_nonneg) simp
    ultimately show ?thesis by simp
  next
    case zero
    then show ?thesis using M0 by (simp add: rnd_zero)
  next
    case neg
    then have "rnd (- x) \<le> real_of_int M" using assms by (intro rnd_le_int) simp_all
    moreover have "0 \<le> rnd (- x)" using neg by (intro rnd_nonneg) simp
    ultimately show ?thesis by (simp add: rnd_minus)
  qed
qed

lemma fl_finite: "\<bar>rnd x\<bar> < 2 ^ 1024 \<Longrightarrow> fl x = Finite (rnd x)"
  by (simp add: fl_def)

lemma fl_finite_int:
  assumes "\<bar>x\<bar> \<le> real_of_int M" and "M < 2 ^ 53"
  shows "fl x = Finite (rnd x)"
proof -
  have "\<bar>rnd x\<bar> \<le> real_of_int M" using assms by (rule rnd_abs_le_int)
  also have "real_of_int M < real_of_int (2 ^ 53)" using assms(2) by (simp only: of_int_less_iff)
  also have "real_of_int (2 ^ 53) < 2 ^ 1024" by simp
  finally show ?thesis by (rule fl_finite)
qed


subsection \<open>Prices, valuations and the profit percentage on doubles\<close>


lemma int_truediv_hundred:
  assumes "1 \<le> c" and "c \<le> 100"
  shows "int_truediv c 100 = Inr (Finite (rnd (real_of_int c / 100))) \<and>
         0 \<le> rnd (real_of_int c / 100) \<and> rnd (real_of_int c / 100) \<le> 1"
proof -
  have p: "0 < real_of_int c / 100" using assms by simp
  have u: "real_of_int c / 100 \<le> real_of_int 1" using assms by simp
  have a: "\<bar>real_of_int c / 100\<bar> \<le> real_of_int 1" using p u by simp
  have f: "fl (real_of_int c / 100) = Finite (rnd (real_of_int c / 100))"
    using a by (rule fl_finite_int) simp
  have "rnd (real_of_int c / 100) \<le> real_of_int 1" using p u by (rule rnd_le_int) simp
  moreover have "0 \<le> rnd (real_of_int c / 100)" using p by (intro rnd_nonneg) simp
  ultimately show ?thesis by (simp add: int_truediv_def f)
qed

lemma fl_small_int:
  assumes "\<bar>i\<bar> < 2 ^ 53"
  shows "fl (real_of_int i) = Finite (real_of_int i)"
proof -
  have le: "\<bar>real_of_int i\<bar> \<le> real_of_int \<bar>i\<bar>" by simp
  have f: "fl (real_of_int i) = Finite (rnd (real_of_int i))"
    using le assms by (rule fl_finite_int)
  have "rnd (real_of_int i) = real_of_int i"
  proof (cases "i = 0")
    case True
    then show ?thesis by (simp add: rnd_zero)
  next
    case False
    have pos: "rnd (real_of_int j) = real_of_int j" if j: "0 < j" "j < 2 ^ 53" for j :: int
    proof -
      have "0 < real_of_int j" using j by simp
      moreover have "real_of_int j < 2 ^ 53"
        using j(2) by (metis of_int_less_iff of_int_numeral of_int_power)
      ultimately have "real_of_int j \<le> rnd (real_of_int j)" "rnd (real_of_int j) \<le> real_of_int j"
        using j(2) by (auto intro: rnd_ge_int rnd_le_int)
      then show ?thesis by simp
    qed
    show ?thesis
    proof (cases "0 < i")
      case True
      then show ?thesis using pos [of i] assms by simp
    next
      case neg: False
      then have "rnd (real_of_int (- i)) = real_of_int (- i)"
        using pos [of "- i"] assms False by simp
      then show ?thesis by (simp add: rnd_minus)
    qed
  qed
  then show ?thesis using f by simp
qed

lemma get_price64_value:
  "\<exists>p. get_price64 s w = (Inr (Finite p), w\<lparr>cursor := cursor w + 2\<rparr>) \<and> 1 \<le> p \<and> p \<le> 1001"
proof -
  obtain i w1 where a: "randint 1 1000 w = (i, w1)" by (cases "randint 1 1000 w")
  obtain c w2 where b: "randint 1 100 w1 = (c, w2)" by (cases "randint 1 100 w1")
  have ir: "1 \<le> i \<and> i \<le> 1000" using randint_range [of 1 1000 w] a by simp
  have cr: "1 \<le> c \<and> c \<le> 100" using randint_range [of 1 100 w1] b by simp
  have w2: "w2 = w\<lparr>cursor := cursor w + 2\<rparr>"
    using a b by (auto simp: randint_def randbelow_def)
  define x where "x = rnd (real_of_int c / 100)"
  have q: "int_truediv c 100 = Inr (Finite x)" and x0: "0 \<le> x" and x1: "x \<le> 1"
    using int_truediv_hundred [of c] cr by (simp_all add: x_def)
  have fi: "fl (real_of_int i) = Finite (real_of_int i)"
    using ir by (intro fl_small_int) simp
  have lo: "real_of_int 1 \<le> real_of_int i + x" using ir x0 by simp
  have hi: "real_of_int i + x \<le> real_of_int 1001" using ir x1 by simp
  have pos: "0 < real_of_int i + x" using lo by simp
  have f: "fl (real_of_int i + x) = Finite (rnd (real_of_int i + x))"
    using pos hi by (intro fl_finite_int [of _ 1001]) simp_all
  have "real_of_int 1 \<le> rnd (real_of_int i + x)"
    using pos lo hi by (intro rnd_ge_int) simp_all
  moreover have "rnd (real_of_int i + x) \<le> real_of_int 1001"
    using pos hi by (intro rnd_le_int) simp_all
  moreover have "get_price64 s w = (Inr (Finite (rnd (real_of_int i + x))), w2)"
    by (simp add: get_price64_def generate_random_price64_def a b q fi f)
  ultimately show ?thesis using w2 by auto
qed

lemma sum_prices64_value:
  assumes "real_of_int L \<le> a" and "a \<le> real_of_int U" and "0 \<le> L"
    and "U + 1001 * int (length ss) < 2 ^ 53"
  shows "\<exists>v. sum_prices64 ss (Finite a) w =
             (Inr (Finite v), w\<lparr>cursor := cursor w + 2 * length ss\<rparr>) \<and>
           real_of_int (L + int (length ss)) \<le> v \<and>
           v \<le> real_of_int (U + 1001 * int (length ss))"
  using assms
proof (induction ss arbitrary: a L U w)
  case Nil
  then show ?case by simp
next
  case (Cons s ss)
  obtain p where gp: "get_price64 s w = (Inr (Finite p), w\<lparr>cursor := cursor w + 2\<rparr>)"
    and p: "1 \<le> p" "p \<le> 1001"
    using get_price64_value [of s w] by blast
  have lo: "real_of_int (L + 1) \<le> a + p" using Cons.prems(1) p by simp
  have hi: "a + p \<le> real_of_int (U + 1001)" using Cons.prems(2) p by simp
  have pos: "0 < a + p" using lo Cons.prems(3) by simp
  have small: "U + 1001 < 2 ^ 53" using Cons.prems(4) by simp
  have f: "fl (a + p) = Finite (rnd (a + p))"
    using pos hi small by (intro fl_finite_int [of _ "U + 1001"]) simp_all
  have lt: "a + p < 2 ^ 53"
  proof -
    have "real_of_int (U + 1001) < real_of_int (2 ^ 53)" using small by (simp only: of_int_less_iff)
    then show ?thesis using hi by simp
  qed
  have b1: "real_of_int (L + 1) \<le> rnd (a + p)" using pos lo lt by (rule rnd_ge_int)
  have b2: "rnd (a + p) \<le> real_of_int (U + 1001)" using pos hi small by (rule rnd_le_int)
  obtain v where
    v: "sum_prices64 ss (Finite (rnd (a + p))) (w\<lparr>cursor := cursor w + 2\<rparr>) =
          (Inr (Finite v), w\<lparr>cursor := cursor w + 2\<rparr>\<lparr>cursor :=
             cursor (w\<lparr>cursor := cursor w + 2\<rparr>) + 2 * length ss\<rparr>)"
    and vb: "real_of_int (L + 1 + int (length ss)) \<le> v"
      "v \<le> real_of_int (U + 1001 + 1001 * int (length ss))"
    using Cons.IH [OF b1 b2, of "w\<lparr>cursor := cursor w + 2\<rparr>"] Cons.prems(3,4) by auto
  show ?case
    using v vb by (simp add: gp f algebra_simps)
qed

lemma get_portfolio_value64_value:
  assumes "stocks p \<noteq> []" and "length (stocks p) \<le> 8"
  shows "\<exists>v. get_portfolio_value64 p w =
             (Inr (Finite v), w\<lparr>cursor := cursor w + 2 * length (stocks p)\<rparr>) \<and>
           1 \<le> v \<and> v \<le> 8008"
proof -
  have n: "1 \<le> int (length (stocks p))" "int (length (stocks p)) \<le> 8"
    using assms by (cases "stocks p", simp_all)
  obtain v where v: "sum_prices64 (stocks p) (Finite 0) w =
             (Inr (Finite v), w\<lparr>cursor := cursor w + 2 * length (stocks p)\<rparr>)"
    and b: "real_of_int (0 + int (length (stocks p))) \<le> v"
      "v \<le> real_of_int (0 + 1001 * int (length (stocks p)))"
    using sum_prices64_value [of 0 0 0 "stocks p" w] n by auto
  have "1 \<le> v" using b(1) n(1) by simp
  moreover have "v \<le> 8008" using b(2) n(2) by simp
  ultimately show ?thesis using v by (auto simp: get_portfolio_value64_def)
qed



lemma profit_percentage64_value:
  assumes "1 \<le> i" and "i \<le> 8008" and "1 \<le> f" and "f \<le> 8008"
  shows "calculate_profit_percentage64 p (Finite i) (Finite f) =
           Inr (Finite (rnd (rnd (rnd (f - i) / i) * 100))) \<and>
         \<bar>rnd (rnd (rnd (f - i) / i) * 100)\<bar> \<le> 800700"
proof -
  define d where "d = rnd (f - i)"
  define q where "q = rnd (d / i)"
  have a1: "\<bar>f - i\<bar> \<le> real_of_int 8007" using assms by simp
  have f1: "fl (f - i) = Finite d" unfolding d_def using a1 by (rule fl_finite_int) simp
  have d: "\<bar>d\<bar> \<le> real_of_int 8007" unfolding d_def using a1 by (rule rnd_abs_le_int) simp
  have "\<bar>d\<bar> * 1 \<le> \<bar>d\<bar> * i" using assms(1) by (intro mult_left_mono) simp_all
  then have "\<bar>d / i\<bar> \<le> \<bar>d\<bar>" using assms(1) by (simp add: field_simps)
  then have a2: "\<bar>d / i\<bar> \<le> real_of_int 8007" using d by linarith
  have f2: "fl (d / i) = Finite q" unfolding q_def using a2 by (rule fl_finite_int) simp
  have q: "\<bar>q\<bar> \<le> real_of_int 8007" unfolding q_def using a2 by (rule rnd_abs_le_int) simp
  have a3: "\<bar>q * 100\<bar> \<le> real_of_int 800700" using q by (simp add: abs_mult)
  have f3: "fl (q * 100) = Finite (rnd (q * 100))" using a3 by (rule fl_finite_int) simp
  have b3: "\<bar>rnd (q * 100)\<bar> \<le> real_of_int 800700" using a3 by (rule rnd_abs_le_int) simp
  have i0: "i \<noteq> 0" using assms(1) by simp
  have "calculate_profit_percentage64 p (Finite i) (Finite f) = Inr (Finite (rnd (q * 100)))"
    by (simp add: calculate_profit_percentage64_def fsub_def f1 i0 f2 f3)
  then show ?thesis using b3 by (simp add: q_def d_def)
qed

subsection \<open>Printing to two decimals\<close>

lemma digit_char_value:
  assumes "k < 10"
  shows "is_digit (digit_char k) \<and> digit_value (digit_char k) = int k"
proof -
  have "k = 0 \<or> k = 1 \<or> k = 2 \<or> k = 3 \<or> k = 4 \<or> k = 5 \<or> k = 6 \<or> k = 7 \<or> k = 8 \<or> k = 9"
    using assms by arith
  then show ?thesis
    by (elim disjE) (simp_all add: digit_char_def is_digit_def digit_value_def)
qed

lemma digit_char_zero: "k < 10 \<Longrightarrow> digit_char k = CHR ''0'' \<longleftrightarrow> k = 0"
proof -
  assume "k < 10"
  then have "k = 0 \<or> k = 1 \<or> k = 2 \<or> k = 3 \<or> k = 4 \<or> k = 5 \<or> k = 6 \<or> k = 7 \<or> k = 8 \<or> k = 9"
    by arith
  then show ?thesis by (elim disjE) (simp_all add: digit_char_def)
qed

lemma read_digits_snoc:
  assumes "read_digits s = Some m" and "is_digit c"
  shows "read_digits (s @ [c]) = Some (10 * m + nat (digit_value c))"
  using assms
proof (induction s arbitrary: m rule: read_digits.induct)
  case 1
  then show ?case by simp
next
  case (2 a)
  then show ?case by (auto split: if_splits)
next
  case (3 a b cs)
  then show ?case by (auto split: if_splits option.splits simp: algebra_simps)
qed

lemma show_nat_digits: "read_digits (show_nat n) = Some n"
proof (induction n rule: show_nat.induct)
  case (1 n)
  show ?case
  proof (cases "n < 10")
    case True
    then show ?thesis using digit_char_value [of n] by (simp add: show_nat.simps)
  next
    case False
    have m: "n mod 10 < 10" by simp
    have "read_digits (show_nat (n div 10)) = Some (n div 10)" using 1 False by simp
    then have "read_digits (show_nat (n div 10) @ [digit_char (n mod 10)]) =
        Some (10 * (n div 10) + nat (digit_value (digit_char (n mod 10))))"
      using digit_char_value [OF m] by (intro read_digits_snoc) simp_all
    then show ?thesis using False digit_char_value [OF m]
      by (subst show_nat.simps) simp
  qed
qed

lemma show_nat_nonempty: "show_nat n \<noteq> []"
  by (subst show_nat.simps) simp

lemma show_nat_all_digits: "list_all is_digit (show_nat n)"
proof (induction n rule: show_nat.induct)
  case (1 n)
  show ?case
  proof (cases "n < 10")
    case True
    then show ?thesis using digit_char_value [of n] by (subst show_nat.simps) simp
  next
    case False
    have m: "n mod 10 < 10" by simp
    show ?thesis using 1 False digit_char_value [OF m] by (subst show_nat.simps) simp
  qed
qed

lemma show_nat_hd: "hd (show_nat n) = CHR ''0'' \<Longrightarrow> n = 0"
proof (induction n rule: show_nat.induct)
  case (1 n)
  show ?case
  proof (cases "n < 10")
    case True
    then show ?thesis using "1.prems" digit_char_zero [of n] by (simp add: show_nat.simps)
  next
    case False
    have "hd (show_nat n) = hd (show_nat (n div 10))"
      using False show_nat_nonempty [of "n div 10"] by (subst show_nat.simps) simp
    then have "n div 10 = 0" using 1 False by simp
    then show ?thesis using False by simp
  qed
qed

lemma show_nat_length_one: "1 < length (show_nat n) \<Longrightarrow> 10 \<le> n"
  by (subst (asm) show_nat.simps) (simp split: if_splits)

lemma read_nat_show_nat: "read_nat (show_nat n) = Some n"
proof -
  have "\<not> (1 < length (show_nat n) \<and> hd (show_nat n) = CHR ''0'')"
    using show_nat_length_one [of n] show_nat_hd [of n] by auto
  then show ?thesis by (simp add: read_nat_def show_nat_digits)
qed



lemma round_half_even_tie:
  "\<bar>real_of_int (round_half_even q) - q\<bar> < 1 / 2 \<or> even (round_half_even q)"
  unfolding round_half_even_def Let_def by (auto simp: abs_if) linarith+

lemma not_dot_digit: "is_digit c \<Longrightarrow> c \<noteq> CHR ''.''"
  by (auto simp: is_digit_def)

lemma digits_no_dot: "list_all is_digit s \<Longrightarrow> CHR ''.'' \<notin> set s"
  by (auto simp: list_all_iff dest: not_dot_digit)

lemma read_2f_format_2f:
  "read_2f (format_2f x) = Some (x < 0, nat (round_half_even (\<bar>x\<bar> * 100)))"
proof -
  define n where "n = nat (round_half_even (\<bar>x\<bar> * 100))"
  define ip where "ip = show_nat (n div 100)"
  define d1 where "d1 = digit_char (n mod 100 div 10)"
  define d2 where "d2 = digit_char (n mod 10)"
  have b1: "n mod 100 div 10 < 10" by (simp add: less_mult_imp_div_less)
  have b2: "n mod 10 < 10" by simp
  have v1: "is_digit d1" "digit_value d1 = int (n mod 100 div 10)"
    using digit_char_value [OF b1] by (simp_all add: d1_def)
  have v2: "is_digit d2" "digit_value d2 = int (n mod 10)"
    using digit_char_value [OF b2] by (simp_all add: d2_def)
  have ipd: "list_all is_digit ip" by (simp add: ip_def show_nat_all_digits)
  have ipn: "ip \<noteq> []" by (simp add: ip_def show_nat_nonempty)
  have hd_ip: "hd ip \<noteq> CHR ''-''"
    using ipd ipn by (cases ip) (auto dest: is_digit_not_dash)
  have fmt: "format_2f x = (if x < 0 then ''-'' else []) @ ip @ CHR ''.'' # [d1, d2]"
    by (simp add: format_2f_def Let_def n_def ip_def d1_def d2_def)
  have neg: "(format_2f x \<noteq> [] \<and> hd (format_2f x) = CHR ''-'') = (x < 0)"
    using hd_ip ipn by (auto simp: fmt hd_append)
  have bneg: "tl (format_2f x) = ip @ CHR ''.'' # [d1, d2]" if "x < 0"
    using that by (simp add: fmt)
  have bpos: "format_2f x = ip @ CHR ''.'' # [d1, d2]" if "\<not> x < 0"
    using that by (simp add: fmt)
  have sp: "split_on CHR ''.'' (ip @ CHR ''.'' # [d1, d2]) = [ip, [d1, d2]]"
    using digits_no_dot [OF ipd] v1(1) v2(1)
    by (simp add: split_on_append split_on_no_sep not_dot_digit)
  have rf: "read_digits [d1, d2] = Some (10 * (n mod 100 div 10) + n mod 10)"
    using v1 v2 by simp
  have ri: "read_nat ip = Some (n div 100)" by (simp add: ip_def read_nat_show_nat)
  have "n mod 100 mod 10 = n mod 10" by (simp add: mod_mod_cancel)
  then have "10 * (n mod 100 div 10) + n mod 10 = n mod 100"
    using div_mult_mod_eq [of "n mod 100" 10] by (simp add: mult.commute)
  then have "100 * (n div 100) + (10 * (n mod 100 div 10) + n mod 10) = n" by simp
  then have hund: "100 * (n div 100) + (10 * (n mod 100 div 10) + n mod 10) = n" .
  have "read_2f (format_2f x) =
      Some (x < 0, 100 * (n div 100) + (10 * (n mod 100 div 10) + n mod 10))"
  proof (cases "x < 0")
    case True
    then show ?thesis
      unfolding read_2f_def Let_def neg
      by (simp add: bneg sp ri rf del: read_digits.simps)
  next
    case False
    then show ?thesis
      unfolding read_2f_def Let_def neg
      by (simp add: bpos sp ri rf del: read_digits.simps)
  qed
  then have "read_2f (format_2f x) = Some (x < 0, n)" by (simp only: hund)
  then show ?thesis by (simp only: n_def)
qed

lemma format_2f_shows: "shows_2f (format_2f x) x"
proof -
  define q where "q = \<bar>x\<bar> * 100"
  define r where "r = round_half_even q"
  have q0: "0 \<le> q" by (simp add: q_def)
  have r0: "0 \<le> r" using round_half_even_ge [of 0 q] q0 by (simp add: r_def)
  have n: "real (nat r) = real_of_int r" using r0 by simp
  have near: "\<bar>real_of_int r - q\<bar> \<le> 1 / 2" unfolding r_def by (rule round_half_even_near)
  have tie: "\<bar>real_of_int r - q\<bar> < 1 / 2 \<or> even r" unfolding r_def by (rule round_half_even_tie)
  have e: "real_of_int r / 100 - \<bar>x\<bar> = (real_of_int r - q) / 100" by (simp add: q_def)
  have en: "even (nat r) = even r" using r0 by (simp add: even_nat_iff)
  have c1: "\<bar>real_of_int r / 100 - \<bar>x\<bar>\<bar> \<le> 1 / 200" unfolding e using near by simp
  have c2: "even (nat r) \<or> \<bar>real_of_int r / 100 - \<bar>x\<bar>\<bar> < 1 / 200"
    unfolding e en using tie by auto
  show ?thesis
    unfolding shows_2f_def read_2f_format_2f
    using c1 c2 by (simp add: n q_def [symmetric] r_def [symmetric])
qed



end
